theory Spec2Isabelle
  imports Main "HOL-Library.Word" "HOL-Library.Sublist" "HOL-Library.Log_Nat"
begin

section \<open>Machine types and failures\<close>

text \<open>
  The program is C++ for an LP64 target. \<open>int\<close> is a 32-bit two's complement value:
  \<open>+\<close>, \<open>-\<close> and \<open>*\<close> on \<open>int32\<close> wrap around, \<open>sint\<close> reads the signed value and
  \<open><s\<close>, \<open>\<le>s\<close> are the signed comparisons. (C++ leaves the overflow of a signed
  addition undefined; the wrapped value is what the machine computes, and where
  the exact result fits in 32 bits the two agree.) \<open>uint8_t\<close> is an 8-bit word.
  \<open>size_t\<close> values are natural numbers below \<open>2 ^ 64\<close> with the wrap-around written
  out where the source can wrap.
\<close>

type_synonym int32 = "32 word"
type_synonym uint8 = "8 word"

text \<open>
  What the source can do instead of returning a value:
  \<^item> \<open>OutOfBounds\<close>: an unchecked read or write outside a buffer
    (\<open>operator[]\<close> of \<open>std::string_view\<close> and \<open>std::vector\<close>): undefined behaviour;
  \<^item> \<open>OutOfRange\<close>: \<open>std::out_of_range\<close> thrown by \<open>substr\<close>;
  \<^item> \<open>LengthError\<close>: \<open>std::length_error\<close> thrown by \<open>std::vector::resize\<close>;
  \<^item> \<open>FloatToIntOverflow\<close>: a \<open>float\<close> converted to an \<open>int\<close> that cannot hold it:
    undefined behaviour.
  No exception is caught anywhere in the program, so a thrown exception ends the process.
\<close>

datatype error = OutOfBounds | OutOfRange | LengthError | FloatToIntOverflow

definition std_clamp :: "int32 \<Rightarrow> int32 \<Rightarrow> int32 \<Rightarrow> int32" where
  "std_clamp v lo hi = (if v <s lo then lo else if hi <s v then hi else v)"

definition std_min :: "int32 \<Rightarrow> int32 \<Rightarrow> int32" where
  "std_min a b = (if b <s a then b else a)"

section \<open>Color and Canvas\<close>

text \<open>
  \<open>Color\<close> holds one \<open>uint32_t\<close> whose four bytes are written one by one through a byte
  pointer: \<open>r\<close>, \<open>g\<close>, \<open>b\<close>, then 255. \<open>setPixel\<close> stores that \<open>uint32_t\<close> into the
  byte vector, so the same four bytes land there in the same order whatever the byte
  order of the machine. A \<open>Color\<close> is modelled as these four bytes in memory order.
\<close>

type_synonym Color = "uint8 \<times> uint8 \<times> uint8 \<times> uint8"

definition Color :: "uint8 \<Rightarrow> uint8 \<Rightarrow> uint8 \<Rightarrow> Color" where
  "Color r g b = (r, g, b, 255)"

definition WIDTH :: int32 where "WIDTH = 256"
definition HEIGHT :: int32 where "HEIGHT = 256"
definition DEPTH :: int32 where "DEPTH = 4"

record Canvas =
  data :: "uint8 list"

text \<open>The constructor: \<open>data.resize(WIDTH * HEIGHT * DEPTH)\<close>, every byte zero.\<close>

definition Canvas_new :: Canvas where
  "Canvas_new = \<lparr>data = replicate (unat (WIDTH * HEIGHT * DEPTH)) 0\<rparr>"

text \<open>
  \<open>setPixel\<close> computes the byte offset in \<open>int\<close> and writes four bytes there with no
  check. The model fails with \<open>OutOfBounds\<close> when one of the four bytes is outside
  \<open>data\<close>.
\<close>

definition setPixel :: "int32 \<Rightarrow> int32 \<Rightarrow> Color \<Rightarrow> Canvas \<Rightarrow> error + Canvas" where
  "setPixel x y c cv =
     (let i = sint ((x + y * WIDTH) * DEPTH) in
      if 0 \<le> i \<and> nat i + 4 \<le> length (data cv) then
        (case c of (b0, b1, b2, b3) \<Rightarrow>
           Inr (cv\<lparr>data := (data cv)[nat i := b0, nat i + 1 := b1,
                                  nat i + 2 := b2, nat i + 3 := b3]\<rparr>))
      else Inl OutOfBounds)"

text \<open>
  \<open>for (int i = a; i < e; ++i)\<close>: the values the loop variable takes, in order. Both
  loops of \<open>drawRect\<close> have this shape; their bounds \<open>cy + ch\<close> and \<open>cx + cw\<close> do not
  change while they run.
\<close>

function for_range :: "int32 \<Rightarrow> int32 \<Rightarrow> int32 list" where
  "for_range i e = (if i <s e then i # for_range (i + 1) e else [])"
  by pat_completeness auto

termination
proof (relation "measure (\<lambda>(i, e). nat (sint e - sint i))")
  show "wf (measure (\<lambda>(i, e). nat (sint e - sint i)))" by simp
next
  fix i e :: int32
  assume "i <s e"
  then have lt: "sint i < sint e" by (simp add: word_sless_alt)
  have "sint e < 2 ^ 31" using sint_lt [of e] by simp
  moreover have "- (2 ^ 31) \<le> sint i" using sint_ge [of i] by simp
  ultimately have "signed_take_bit 31 (sint i + 1) = sint i + 1"
    using lt by (intro signed_take_bit_int_eq_self) auto
  then have "sint (i + 1) = sint i + 1" by (simp add: sint_word_add)
  with lt show "((i + 1, e), (i, e)) \<in> measure (\<lambda>(i, e). nat (sint e - sint i))"
    by simp
qed

declare for_range.simps [simp del]

text \<open>The calls \<open>setPixel(xi, yi, c)\<close> that \<open>drawRect\<close> makes, in order.\<close>

definition drawRect_pixels :: "int32 \<Rightarrow> int32 \<Rightarrow> int32 \<Rightarrow> int32 \<Rightarrow> (int32 \<times> int32) list" where
  "drawRect_pixels x y w h =
     (let cx = std_clamp x 0 WIDTH;
          cy = std_clamp y 0 HEIGHT;
          cw = std_min (x + w) WIDTH - cx;
          ch = std_min (y + h) HEIGHT - cy
      in concat (map (\<lambda>yi. map (\<lambda>xi. (xi, yi)) (for_range cx (cx + cw)))
                     (for_range cy (cy + ch))))"

fun setPixels :: "(int32 \<times> int32) list \<Rightarrow> Color \<Rightarrow> Canvas \<Rightarrow> error + Canvas" where
  "setPixels [] c cv = Inr cv"
| "setPixels ((xi, yi) # ps) c cv =
     (case setPixel xi yi c cv of Inl e \<Rightarrow> Inl e | Inr cv' \<Rightarrow> setPixels ps c cv')"

definition drawRect :: "int32 \<Rightarrow> int32 \<Rightarrow> int32 \<Rightarrow> int32 \<Rightarrow> Color \<Rightarrow> Canvas \<Rightarrow> error + Canvas" where
  "drawRect x y w h c cv = setPixels (drawRect_pixels x y w h) c cv"

definition clear :: "Canvas \<Rightarrow> error + Canvas" where
  "clear cv = drawRect 0 0 WIDTH HEIGHT (Color 0 0 0) cv"

text \<open>
  \<open>std::to_string\<close> of a non-negative integer: its decimal digits, most significant
  first, no leading zero, \<open>0\<close> for zero.
\<close>

definition digit_char :: "nat \<Rightarrow> char" where
  "digit_char n = ''0123456789'' ! n"

fun to_string :: "nat \<Rightarrow> string" where
  "to_string n =
     (if n < 10 then [digit_char n] else to_string (n div 10) @ [digit_char (n mod 10)])"

declare to_string.simps [simp del]

text \<open>
  The loop of \<open>toString\<close>: \<open>i\<close> counts up to \<open>data.size()\<close>, \<open>str\<close> grows by the
  decimal value of byte \<open>i\<close> and by a comma unless \<open>i\<close> is the last index.
\<close>

function toString_loop :: "nat \<Rightarrow> string \<Rightarrow> uint8 list \<Rightarrow> string" where
  "toString_loop i str d =
     (if i < length d
      then toString_loop (i + 1)
             (str @ to_string (unat (d ! i)) @ (if i \<noteq> length d - 1 then '','' else [])) d
      else str)"
  by pat_completeness auto
termination
  by (relation "measure (\<lambda>(i, str, d). length d - i)") auto

declare toString_loop.simps [simp del]

definition toString :: "Canvas \<Rightarrow> string" where
  "toString cv = ''['' @ toString_loop 0 [] (data cv) @ '']''"

text \<open>
  The number a string of decimal digits stands for: the reading of a
  \<open>Content-Length\<close> value by the receiver of a response.
\<close>

definition decimal_value :: "string \<Rightarrow> nat" where
  "decimal_value s = foldl (\<lambda>a c. 10 * a + (of_char c - 48)) 0 s"

section \<open>Hero\<close>

text \<open>
  \<open>float\<close> is IEEE 754 binary32 with the default rounding, to nearest and ties to even.
  Every \<open>float\<close> of the program has an integer value: the start position
  \<open>0.5f * 256\<close>, the constants \<open>8.0f\<close>, \<open>4.0f\<close> and \<open>2.0f * 4.0f\<close>, and sums and
  differences of such values, each rounded to binary32 (an integer rounds to an
  integer). A \<open>float\<close> is therefore modelled by its integer value, and \<open>float32 v\<close>
  is the binary32 value that the exact integer result \<open>v\<close> of an operation is rounded
  to: \<open>v\<close> itself below \<open>2 ^ 24\<close>, and above that the nearest multiple of the unit in
  the last place \<open>2 ^ e\<close>, the even one of two nearest. (Magnitudes from \<open>2 ^ 128\<close> on,
  which round to infinity, are left out; no theorem below reaches them.)
\<close>

definition float32 :: "int \<Rightarrow> int" where
  "float32 v =
     (let a = \<bar>v\<bar> in
      if a < 2 ^ 24 then v
      else
        let e = nat (bitlen a - 24);
            q = a div 2 ^ e;
            r = a mod 2 ^ e;
            half = 2 ^ (e - 1)
        in sgn v * ((if half < r \<or> (r = half \<and> odd q) then q + 1 else q) * 2 ^ e))"

text \<open>
  A \<open>float\<close> argument passed for an \<open>int\<close> parameter is truncated towards zero, which
  leaves an integer value as it is; outside the range of \<open>int\<close> the conversion is
  undefined.
\<close>

definition float_to_int :: "int \<Rightarrow> error + int32" where
  "float_to_int v =
     (if - (2 ^ 31) \<le> v \<and> v < 2 ^ 31 then Inr (word_of_int v) else Inl FloatToIntOverflow)"

definition and_then :: "error + 'a \<Rightarrow> ('a \<Rightarrow> error + 'b) \<Rightarrow> error + 'b" where
  "and_then r f = (case r of Inl e \<Rightarrow> Inl e | Inr v \<Rightarrow> f v)"

datatype KeyCode = ArrowLeft | ArrowUp | ArrowRight | ArrowDown

fun KeyCode_int :: "KeyCode \<Rightarrow> nat" where
  "KeyCode_int ArrowLeft = 37"
| "KeyCode_int ArrowUp = 38"
| "KeyCode_int ArrowRight = 39"
| "KeyCode_int ArrowDown = 40"

text \<open>
  \<open>requestBody[int(keyCode)]\<close> on a \<open>std::string_view\<close>: no bounds check, the read
  is defined only for an index below the length.
\<close>

definition isKeyDown :: "string \<Rightarrow> KeyCode \<Rightarrow> error + bool" where
  "isKeyDown requestBody keyCode =
     (if KeyCode_int keyCode < length requestBody
      then Inr (requestBody ! KeyCode_int keyCode = CHR ''1'')
      else Inl OutOfBounds)"

text \<open>The fields \<open>x_\<close> and \<open>y_\<close> of the source (a name cannot end with an underscore here).\<close>

record Hero =
  pos_x :: int
  pos_y :: int

text \<open>
  The initial position \<open>0.5f * Canvas::WIDTH\<close>, \<open>0.5f * Canvas::HEIGHT\<close>: both
  constants are even, so the exact products are the integers \<open>WIDTH / 2\<close> and
  \<open>HEIGHT / 2\<close>.
\<close>

definition Hero_new :: Hero where
  "Hero_new = \<lparr>pos_x = float32 (sint WIDTH div 2), pos_y = float32 (sint HEIGHT div 2)\<rparr>"

definition Hero_update :: "string \<Rightarrow> Hero \<Rightarrow> error + Hero" where
  "Hero_update requestBody h0 =
     (let spd = 8 in
      and_then (isKeyDown requestBody ArrowLeft) (\<lambda>left.
        let h1 = (if left then h0\<lparr>pos_x := float32 (pos_x h0 - spd)\<rparr> else h0) in
      and_then (isKeyDown requestBody ArrowUp) (\<lambda>up.
        let h2 = (if up then h1\<lparr>pos_y := float32 (pos_y h1 - spd)\<rparr> else h1) in
      and_then (isKeyDown requestBody ArrowRight) (\<lambda>right.
        let h3 = (if right then h2\<lparr>pos_x := float32 (pos_x h2 + spd)\<rparr> else h2) in
      and_then (isKeyDown requestBody ArrowDown) (\<lambda>down.
        Inr (if down then h3\<lparr>pos_y := float32 (pos_y h3 + spd)\<rparr> else h3))))))"

definition Hero_draw :: "Hero \<Rightarrow> Canvas \<Rightarrow> error + Canvas" where
  "Hero_draw h cv =
     (let r = 4 in
      and_then (float_to_int (float32 (pos_x h - r))) (\<lambda>x.
      and_then (float_to_int (float32 (pos_y h - r))) (\<lambda>y.
      and_then (float_to_int (float32 (2 * r))) (\<lambda>w.
      and_then (float_to_int (float32 (2 * r))) (\<lambda>ht.
        drawRect x y w ht (Color 255 0 0) cv)))))"

text \<open>
  The body the page posts: \<open>keys.join("")\<close> of an array of 256 entries, 1 at the
  codes of the keys that are down and 0 elsewhere.
\<close>

definition keys :: "nat list \<Rightarrow> string" where
  "keys pressed = map (\<lambda>i. if i \<in> set pressed then CHR ''1'' else CHR ''0'') [0..<256]"

text \<open>\<open>Hero::update\<close> once for each body of a list, in order.\<close>

fun Hero_updates :: "string list \<Rightarrow> Hero \<Rightarrow> error + Hero" where
  "Hero_updates [] h = Inr h"
| "Hero_updates (b # bs) h = and_then (Hero_update b h) (Hero_updates bs)"

section \<open>The world and one tick\<close>

text \<open>The two globals \<open>canvas\<close> and \<open>hero\<close>, passed explicitly.\<close>

record World =
  canvas :: Canvas
  hero :: Hero

definition World_new :: World where
  "World_new = \<lparr>canvas = Canvas_new, hero = Hero_new\<rparr>"

definition update :: "string \<Rightarrow> World \<Rightarrow> error + (string \<times> World)" where
  "update requestBody w =
     and_then (Hero_update requestBody (hero w)) (\<lambda>h.
     and_then (clear (canvas w)) (\<lambda>cv.
     and_then (Hero_draw h cv) (\<lambda>cv'.
       Inr (toString cv', \<lparr>canvas = cv', hero = h\<rparr>))))"

section \<open>Requests and responses\<close>

definition CR :: char where "CR = CHR 0x0D"
definition LF :: char where "LF = CHR 0x0A"
definition dq :: char where "dq = CHR 0x22"

definition CRLF :: string where "CRLF = [CR, LF]"

text \<open>The page, a raw string literal: each line of the source ends with a line feed.\<close>

definition baseHTML :: string where
  "baseHTML = concat (map (\<lambda>l. l @ [LF])
     [[],
      ''<!DOCTYPE html>'',
      ''<canvas width='' @ [dq] @ ''256'' @ [dq] @ '' height='' @ [dq] @ ''256'' @ [dq]
        @ ''></canvas>'',
      ''<script>'',
      ''  const keys = Array(256).fill(0);'',
      ''  onkeydown = (e) => keys[e.keyCode] = 1;'',
      ''  onkeyup = (e) => keys[e.keyCode] = 0;'',
      ''  onload = async () => {'',
      ''    while (true) {'',
      ''      const res = await fetch('' @ [dq] @ ''/'' @ [dq] @ '', { method: '' @ [dq]
        @ ''POST'' @ [dq] @ '', body: keys.join('' @ [dq, dq] @ '') });'',
      ''      const json = await res.json();'',
      ''      const canvas = document.querySelector('' @ [dq] @ ''canvas'' @ [dq] @ '');'',
      ''      const ctx = canvas.getContext('' @ [dq] @ ''2d'' @ [dq] @ '');'',
      ''      const imageData = new ImageData(new Uint8ClampedArray(json), 256);'',
      ''      ctx.putImageData(imageData, 0, 0);'',
      ''    }'',
      ''  };'',
      ''</script>''])"

text \<open>
  \<open>s.find(pat)\<close>: the first position where \<open>pat\<close> occurs in \<open>s\<close>, or \<open>npos\<close>, the
  largest \<open>size_t\<close>, when it does not occur.
\<close>

fun find_first :: "string \<Rightarrow> string \<Rightarrow> nat option" where
  "find_first [] pat = (if pat = [] then Some 0 else None)"
| "find_first (c # s) pat =
     (if prefix pat (c # s) then Some 0 else map_option Suc (find_first s pat))"

definition npos :: nat where "npos = 2 ^ 64 - 1"

definition str_find :: "string \<Rightarrow> string \<Rightarrow> nat" where
  "str_find s pat = (case find_first s pat of None \<Rightarrow> npos | Some p \<Rightarrow> p)"

text \<open>\<open>s.substr(pos, n)\<close> throws \<open>std::out_of_range\<close> when \<open>pos\<close> is beyond the length.\<close>

definition substr :: "string \<Rightarrow> nat \<Rightarrow> nat \<Rightarrow> error + string" where
  "substr s pos n = (if length s < pos then Inl OutOfRange else Inr (take n (drop pos s)))"

definition getRequestLine :: "string \<Rightarrow> error + string" where
  "getRequestLine request = substr request 0 (str_find request CRLF)"

text \<open>\<open>request.find("\r\n\r\n") + 4\<close> is computed in \<open>size_t\<close> and wraps around.\<close>

definition getRequestBody :: "string \<Rightarrow> error + string" where
  "getRequestBody request =
     and_then (getRequestLine request) (\<lambda>requestLine.
       if str_find requestLine ''POST'' \<noteq> 0 then Inr []
       else substr request ((str_find request (CRLF @ CRLF) + 4) mod 2 ^ 64) npos)"

definition createResponseBody :: "string \<Rightarrow> World \<Rightarrow> error + (string \<times> World)" where
  "createResponseBody request w =
     and_then (getRequestLine request) (\<lambda>requestLine.
       if str_find requestLine ''GET / '' = 0 then Inr (baseHTML, w)
       else if str_find requestLine ''POST / '' = 0 then
         and_then (getRequestBody request) (\<lambda>requestBody. update requestBody w)
       else Inr ([], w))"

definition createResponseHeader :: "nat \<Rightarrow> string" where
  "createResponseHeader responseBodySize =
     (''HTTP/1.1 200 OK'' @ CRLF) @
     (''Content-Type: text/html'' @ CRLF) @
     ''Content-Length: '' @ to_string responseBodySize @ CRLF"

definition createResponse :: "string \<Rightarrow> World \<Rightarrow> error + (string \<times> World)" where
  "createResponse request w =
     and_then (createResponseBody request w) (\<lambda>(responseBody, w').
       Inr (createResponseHeader (length responseBody) @ CRLF @ responseBody, w'))"


section \<open>The session loop and the acceptor loop\<close>

text \<open>
  The socket and the clock are the environment. One \<open>recv\<close> call is an event: the
  value \<open>readSize\<close> it returns (an \<open>ssize_t\<close>), the bytes it stored at the start of
  \<open>buf\<close>, and, should the iteration get as far as \<open>sleep_until\<close>, the reading
  \<open>clock\<close> of the steady clock when \<open>sleep_until\<close> is called and the time \<open>late\<close> by
  which the thread wakes up after the moment asked for. Time is counted in
  nanoseconds, the unit of \<open>std::chrono::steady_clock\<close>.
\<close>

record recv_event =
  readSize :: int
  bytes :: string
  clock :: int
  late :: nat

text \<open>
  \<open>std::this_thread::sleep_until(t)\<close> returns at once when \<open>t\<close> has passed and no
  earlier than \<open>t\<close> otherwise.
\<close>

definition sleep_until :: "int \<Rightarrow> int \<Rightarrow> nat \<Rightarrow> int" where
  "sleep_until t now lateness = max now t + int lateness"

definition ms100 :: int where "ms100 = 100 * 1000000"

definition RECV_BUF_SIZE :: nat where "RECV_BUF_SIZE = 4096"

text \<open>
  \<open>std::vector<char>::resize(n)\<close> throws \<open>std::length_error\<close> when \<open>n\<close> is more than
  \<open>max_size()\<close>, which is at most \<open>PTRDIFF_MAX\<close>; new elements are zero.
\<close>

definition vector_max_size :: nat where "vector_max_size = 2 ^ 63 - 1"

definition vector_resize :: "string \<Rightarrow> nat \<Rightarrow> error + string" where
  "vector_resize v n =
     (if vector_max_size < n then Inl LengthError
      else Inr (take n v @ replicate (n - length v) (CHR 0x00)))"

text \<open>The conversion of an \<open>ssize_t\<close> to \<open>size_t\<close>.\<close>

definition to_size_t :: "int \<Rightarrow> nat" where
  "to_size_t n = nat (n mod 2 ^ 64)"

text \<open>What \<open>send\<close> was called with, when, and the value of \<open>nextSendTimePoint\<close> then.\<close>

record sent =
  sent_at :: int
  deadline :: int
  response :: string

text \<open>
  How \<open>runReceiveSendLoop\<close> ends: one of its two \<open>break\<close>s, an exception or undefined
  behaviour (which ends the process), or never, in a \<open>recv\<close> that does not return
  (the events have run out).
\<close>

datatype loop_end = ReadError | PeerShutdown | Failed error | Waiting

fun receiveSendLoop ::
  "int \<Rightarrow> recv_event list \<Rightarrow> World \<Rightarrow> sent list \<times> loop_end \<times> World" where
  "receiveSendLoop nextSendTimePoint [] w = ([], Waiting, w)"
| "receiveSendLoop nextSendTimePoint (ev # evs) w =
     (let buf = take RECV_BUF_SIZE (bytes ev @ replicate RECV_BUF_SIZE (CHR 0x00)) in
      case vector_resize buf (to_size_t (readSize ev)) of
        Inl e \<Rightarrow> ([], Failed e, w)
      | Inr buf' \<Rightarrow>
          if readSize ev = - 1 then ([], ReadError, w)
          else if readSize ev = 0 then ([], PeerShutdown, w)
          else
            (case createResponse (take (nat (readSize ev)) buf') w of
               Inl e \<Rightarrow> ([], Failed e, w)
             | Inr (resp, w') \<Rightarrow>
                 (let t = sleep_until nextSendTimePoint (clock ev) (late ev);
                      s = \<lparr>sent_at = t, deadline = nextSendTimePoint, response = resp\<rparr>
                  in case receiveSendLoop (nextSendTimePoint + ms100) evs w' of
                       (sends, how, w'') \<Rightarrow> (s # sends, how, w''))))"

declare receiveSendLoop.simps [simp del]

text \<open>\<open>nextSendTimePoint\<close> starts as the reading \<open>now\<close> of the steady clock.\<close>

definition runReceiveSendLoop ::
  "int \<Rightarrow> recv_event list \<Rightarrow> World \<Rightarrow> sent list \<times> loop_end \<times> World" where
  "runReceiveSendLoop now evs w = receiveSendLoop now evs w"

text \<open>
  One \<open>accept\<close> call is an event: it fails with \<open>-1\<close>, or it gives a connection, with
  the clock reading at the start of its session and the \<open>recv\<close> events of that
  connection.
\<close>

datatype accept_event = AcceptFailed | Accepted int "recv_event list"

text \<open>
  A session as the acceptor loop leaves it: what was sent, how the loop ended, and
  whether \<open>close(acceptedFd)\<close> was reached.
\<close>

record session =
  sends :: "sent list"
  ended :: loop_end
  closed :: bool

text \<open>
  How the process goes on after the sessions listed: \<open>runConnectionLoop\<close> returns
  (and \<open>main\<close> returns 0), the process is ended by an exception or undefined
  behaviour, or it stays blocked in \<open>accept\<close> or \<open>recv\<close>.
\<close>

datatype process_end = Returned | Terminated error | Blocked

fun runConnectionLoop ::
  "accept_event list \<Rightarrow> World \<Rightarrow> session list \<times> process_end \<times> World" where
  "runConnectionLoop [] w = ([], Blocked, w)"
| "runConnectionLoop (AcceptFailed # as) w = ([], Returned, w)"
| "runConnectionLoop (Accepted now evs # as) w =
     (case runReceiveSendLoop now evs w of
        (ss, Failed e, w') \<Rightarrow> ([\<lparr>sends = ss, ended = Failed e, closed = False\<rparr>], Terminated e, w')
      | (ss, Waiting, w') \<Rightarrow> ([\<lparr>sends = ss, ended = Waiting, closed = False\<rparr>], Blocked, w')
      | (ss, how, w') \<Rightarrow>
          (case runConnectionLoop as w' of
             (sessions, pe, w'') \<Rightarrow> (\<lparr>sends = ss, ended = how, closed = True\<rparr> # sessions, pe, w'')))"

text \<open>
  A session of three requests and a shutdown, whose second request is ready only
  300 ms after the session began.
\<close>

definition slow_session :: "recv_event list" where
  "slow_session =
     [\<lparr>readSize = 3, bytes = ''abc'', clock = 7, late = 0\<rparr>,
      \<lparr>readSize = 3, bytes = ''abc'', clock = 300000000, late = 1\<rparr>,
      \<lparr>readSize = 3, bytes = ''abc'', clock = 300000001, late = 1\<rparr>,
      \<lparr>readSize = 0, bytes = [], clock = 0, late = 0\<rparr>]"

section \<open>Pixels and bytes\<close>

text \<open>
  Byte \<open>k\<close> of a colour, and the number of the pixel \<open>(xi, yi)\<close> in row-major
  order: its four bytes are those of index \<open>4 * pixel_index xi yi\<close> and the three after.
\<close>

definition cbyte :: "Color \<Rightarrow> nat \<Rightarrow> uint8" where
  "cbyte c k = (case c of (b0, b1, b2, b3) \<Rightarrow> [b0, b1, b2, b3] ! k)"

definition pixel_index :: "int32 \<Rightarrow> int32 \<Rightarrow> nat" where
  "pixel_index xi yi = nat (sint xi) + 256 * nat (sint yi)"

text \<open>The pixel at column \<open>px\<close> and row \<open>py\<close> of a canvas: its four bytes.\<close>

definition pixel_at :: "Canvas \<Rightarrow> nat \<Rightarrow> nat \<Rightarrow> Color" where
  "pixel_at cv px py =
     (let i = 4 * (px + 256 * py)
      in (data cv ! i, data cv ! (i + 1), data cv ! (i + 2), data cv ! (i + 3)))"

text \<open>Strings with a comma between each two: the text of a list of values.\<close>

fun join_commas :: "string list \<Rightarrow> string" where
  "join_commas [] = []"
| "join_commas [s] = s"
| "join_commas (s # t # ts) = s @ '','' @ join_commas (t # ts)"

section \<open>The loops of drawRect\<close>

lemma sint_succ: "sint (i::int32) < sint (e::int32) \<Longrightarrow> sint (i + 1) = sint i + 1"
proof -
  assume a: "sint i < sint e"
  have "sint e < 2 ^ 31" using sint_lt [of e] by simp
  moreover have "- (2 ^ 31) \<le> sint i" using sint_ge [of i] by simp
  ultimately have "signed_take_bit 31 (sint i + 1) = sint i + 1"
    using a by (intro signed_take_bit_int_eq_self) auto
  then show ?thesis by (simp add: sint_word_add)
qed

lemma sint_inj: "sint (v::int32) = sint i \<longleftrightarrow> v = i"
  by (auto intro: signed_word_eqI)

lemma set_for_range: "set (for_range i e) = {v. sint i \<le> sint v \<and> sint v < sint e}"
proof (induction i e rule: for_range.induct)
  case (1 i e)
  show ?case
  proof (cases "i <s e")
    case True
    then have lt: "sint i < sint e" by (simp add: word_sless_alt)
    have "set (for_range i e) = insert i (set (for_range (i + 1) e))"
      using True by (subst for_range.simps) simp
    also have "\<dots> = insert i {v. sint (i + 1) \<le> sint v \<and> sint v < sint e}"
      using 1 True by simp
    also have "\<dots> = {v. sint i \<le> sint v \<and> sint v < sint e}"
    proof (rule set_eqI)
      fix v :: int32
      have "v = i \<longleftrightarrow> sint v = sint i" by (simp add: sint_inj)
      then show "v \<in> insert i {v. sint (i + 1) \<le> sint v \<and> sint v < sint e}
        \<longleftrightarrow> v \<in> {v. sint i \<le> sint v \<and> sint v < sint e}"
        using lt sint_succ [OF lt] by auto
    qed
    finally show ?thesis .
  next
    case False
    then have "\<not> sint i < sint e" by (simp add: word_sless_alt)
    then have "{v. sint i \<le> sint v \<and> sint v < sint e} = {}" by auto
    then show ?thesis using False
      by (subst for_range.simps) simp
  qed
qed

lemma sint_WIDTH: "sint WIDTH = 256" by (simp add: WIDTH_def)
lemma sint_HEIGHT: "sint HEIGHT = 256" by (simp add: HEIGHT_def)

lemma std_clamp_bounds: "0 \<le> sint (std_clamp v 0 (256::int32)) \<and> sint (std_clamp v 0 (256::int32)) \<le> 256"
  by (simp add: std_clamp_def word_sless_alt)

lemma std_min_le: "sint (std_min a (256::int32)) \<le> 256 \<and> sint (std_min a 256) \<le> sint a"
  by (simp add: std_min_def word_sless_alt)

lemma mem_drawRect_pixels:
  "(xi, yi) \<in> set (drawRect_pixels x y w h) \<longleftrightarrow>
     sint (std_clamp x 0 WIDTH) \<le> sint xi \<and> sint xi < sint (std_min (x + w) WIDTH) \<and>
     sint (std_clamp y 0 HEIGHT) \<le> sint yi \<and> sint yi < sint (std_min (y + h) HEIGHT)"
  unfolding drawRect_pixels_def Let_def
  by (simp add: set_for_range) blast

lemma drawRect_pixels_range:
  assumes "(xi, yi) \<in> set (drawRect_pixels x y w h)"
  shows "0 \<le> sint xi \<and> sint xi < 256 \<and> 0 \<le> sint yi \<and> sint yi < 256"
proof -
  from assms have a: "sint (std_clamp x 0 256) \<le> sint xi" "sint xi < sint (std_min (x + w) 256)"
     "sint (std_clamp y 0 256) \<le> sint yi" "sint yi < sint (std_min (y + h) 256)"
    unfolding mem_drawRect_pixels WIDTH_def HEIGHT_def by simp_all
  show ?thesis
    using a std_clamp_bounds [of x] std_clamp_bounds [of y] std_min_le [of "x + w"] std_min_le [of "y + h"]
    by linarith
qed

lemma stb31:
  "- 2147483648 \<le> k \<Longrightarrow> k < 2147483648 \<Longrightarrow> signed_take_bit (LENGTH(32) - 1) k = (k::int)"
  by (simp add: signed_take_bit_int_eq_self)

lemma pixel_offset:
  fixes xi yi :: int32
  assumes "0 \<le> sint xi" "sint xi < 256" "0 \<le> sint yi" "sint yi < 256"
  shows "sint ((xi + yi * WIDTH) * DEPTH) = 4 * (sint xi + 256 * sint yi)"
proof -
  have c256: "sint (256::int32) = 256" and c4: "sint (4::int32) = 4" by simp_all
  have "sint (yi * 256) = signed_take_bit (LENGTH(32) - 1) (sint yi * sint (256::int32))"
    by (rule sint_word_mult)
  also have "\<dots> = sint yi * 256"
    unfolding c256 using assms by (intro stb31) simp_all
  finally have m: "sint (yi * 256) = sint yi * 256" .
  have "sint (xi + yi * 256) = signed_take_bit (LENGTH(32) - 1) (sint xi + sint (yi * 256))"
    by (rule sint_word_add)
  also have "\<dots> = sint xi + sint yi * 256"
    unfolding m using assms by (intro stb31) simp_all
  finally have a: "sint (xi + yi * 256) = sint xi + sint yi * 256" .
  have "sint ((xi + yi * 256) * 4)
      = signed_take_bit (LENGTH(32) - 1) (sint (xi + yi * 256) * sint (4::int32))"
    by (rule sint_word_mult)
  also have "\<dots> = (sint xi + sint yi * 256) * 4"
    unfolding a c4 using assms by (intro stb31) simp_all
  also have "\<dots> = 4 * (sint xi + 256 * sint yi)" by simp
  finally show ?thesis unfolding WIDTH_def DEPTH_def .
qed

section \<open>What setPixel writes\<close>

lemma quad_other:
  fixes j p :: nat
  assumes "j div 4 \<noteq> p"
  shows "j \<noteq> 4 * p \<and> j \<noteq> 4 * p + 1 \<and> j \<noteq> 4 * p + 2 \<and> j \<noteq> 4 * p + 3"
  using assms by linarith

lemma upd4_nth:
  fixes j p :: nat
  assumes len: "4 * p + 3 < length d"
  shows "d[4 * p := b0, 4 * p + 1 := b1, 4 * p + 2 := b2, 4 * p + 3 := b3] ! j =
           (if j div 4 = p then [b0, b1, b2, b3] ! (j mod 4) else d ! j)"
proof (cases "j div 4 = p")
  case False
  have "j \<noteq> 4 * p" "j \<noteq> 4 * p + 1" "j \<noteq> 4 * p + 2" "j \<noteq> 4 * p + 3"
    using quad_other [OF False] by simp_all
  then have "d[4 * p := b0, 4 * p + 1 := b1, 4 * p + 2 := b2, 4 * p + 3 := b3] ! j = d ! j"
    by (simp only: nth_list_update_neq not_sym)
  then show ?thesis using False by simp
next
  case True
  have ne: "4 * p \<noteq> 4 * p + 1" "4 * p \<noteq> 4 * p + 2" "4 * p \<noteq> 4 * p + 3"
    "4 * p + 1 \<noteq> 4 * p + 2" "4 * p + 1 \<noteq> 4 * p + 3" "4 * p + 2 \<noteq> 4 * p + 3"
    by simp_all
  have l: "4 * p < length d" "4 * p + 1 < length d" "4 * p + 2 < length d" "4 * p + 3 < length d"
    using len by simp_all
  have n0: "d[4 * p := b0, 4 * p + 1 := b1, 4 * p + 2 := b2, 4 * p + 3 := b3] ! (4 * p) = b0"
    using l ne by (simp only: nth_list_update_neq nth_list_update_eq length_list_update not_sym)
  have n1: "d[4 * p := b0, 4 * p + 1 := b1, 4 * p + 2 := b2, 4 * p + 3 := b3] ! (4 * p + 1) = b1"
    using l ne by (simp only: nth_list_update_neq nth_list_update_eq length_list_update not_sym)
  have n2: "d[4 * p := b0, 4 * p + 1 := b1, 4 * p + 2 := b2, 4 * p + 3 := b3] ! (4 * p + 2) = b2"
    using l ne by (simp only: nth_list_update_neq nth_list_update_eq length_list_update not_sym)
  have n3: "d[4 * p := b0, 4 * p + 1 := b1, 4 * p + 2 := b2, 4 * p + 3 := b3] ! (4 * p + 3) = b3"
    using l ne by (simp only: nth_list_update_neq nth_list_update_eq length_list_update not_sym)
  define r where "r = j mod 4"
  have "r < 4" by (simp add: r_def)
  then have rc: "r = 0 \<or> r = 1 \<or> r = 2 \<or> r = 3" by linarith
  have jr: "j = 4 * p + r" using True div_mult_mod_eq [of j 4] by (simp add: r_def)
  from rc jr consider "j = 4 * p" "r = 0" | "j = 4 * p + 1" "r = 1"
    | "j = 4 * p + 2" "r = 2" | "j = 4 * p + 3" "r = 3"
    by auto
  then show ?thesis
  proof cases
    case 1 then show ?thesis using n0 True r_def by simp
  next
    case 2 then show ?thesis using n1 True r_def by simp
  next
    case 3 then show ?thesis using n2 True r_def by simp
  next
    case 4 then show ?thesis using n3 True r_def by simp
  qed
qed

lemma setPixel_ok:
  fixes xi yi :: int32
  assumes r: "0 \<le> sint xi" "sint xi < 256" "0 \<le> sint yi" "sint yi < 256"
    and len: "length (data cv) = 262144"
  shows "\<exists>cv'. setPixel xi yi c cv = Inr cv' \<and> length (data cv') = 262144 \<and>
           (\<forall>j. data cv' ! j =
              (if j div 4 = pixel_index xi yi then cbyte c (j mod 4) else data cv ! j))"
proof -
  obtain b0 b1 b2 b3 where c: "c = (b0, b1, b2, b3)" by (cases c) auto
  let ?p = "pixel_index xi yi"
  have off0: "0 \<le> sint ((xi + yi * WIDTH) * DEPTH)"
    using r by (simp add: pixel_offset [OF r])
  have off: "nat (sint ((xi + yi * WIDTH) * DEPTH)) = 4 * ?p"
    using r by (simp add: pixel_offset [OF r] pixel_index_def)
  have pb: "?p < 65536" using r by (simp add: pixel_index_def)
  let ?d = "(data cv)[4 * ?p := b0, 4 * ?p + 1 := b1, 4 * ?p + 2 := b2, 4 * ?p + 3 := b3]"
  have lenb: "4 * ?p + 3 < length (data cv)" using pb len by simp
  have sp: "setPixel xi yi c cv = Inr (cv\<lparr>data := ?d\<rparr>)"
    using lenb off0 unfolding setPixel_def Let_def off c by simp
  have ld: "length ?d = 262144" using len by simp
  show ?thesis
  proof (intro exI conjI allI)
    show "setPixel xi yi c cv = Inr (cv\<lparr>data := ?d\<rparr>)" by (rule sp)
    show "length (data (cv\<lparr>data := ?d\<rparr>)) = 262144" using ld by simp
    fix j :: nat
    show "data (cv\<lparr>data := ?d\<rparr>) ! j =
        (if j div 4 = ?p then cbyte c (j mod 4) else data cv ! j)"
      using upd4_nth [OF lenb, of b0 b1 b2 b3 j] by (simp add: c cbyte_def)
  qed
qed

lemma setPixels_ok:
  assumes "\<forall>(xi, yi) \<in> set ps. 0 \<le> sint xi \<and> sint xi < 256 \<and> 0 \<le> sint yi \<and> sint yi < 256"
    and "length (data cv) = 262144"
  shows "\<exists>cv'. setPixels ps c cv = Inr cv' \<and> length (data cv') = 262144 \<and>
           (\<forall>j. data cv' ! j =
              (if \<exists>(xi, yi) \<in> set ps. j div 4 = pixel_index xi yi
               then cbyte c (j mod 4) else data cv ! j))"
  using assms
proof (induction ps arbitrary: cv)
  case Nil
  then show ?case by simp
next
  case (Cons p ps)
  obtain xi yi where p: "p = (xi, yi)" by (cases p) auto
  have r: "0 \<le> sint xi" "sint xi < 256" "0 \<le> sint yi" "sint yi < 256"
    using Cons.prems(1) by (simp_all add: p)
  from setPixel_ok [OF r Cons.prems(2), of c]
  obtain cv1 where s1: "setPixel xi yi c cv = Inr cv1" and l1: "length (data cv1) = 262144"
    and n1: "\<And>j. data cv1 ! j =
              (if j div 4 = pixel_index xi yi then cbyte c (j mod 4) else data cv ! j)"
    by blast
  have rest: "\<forall>(xi, yi) \<in> set ps. 0 \<le> sint xi \<and> sint xi < 256 \<and> 0 \<le> sint yi \<and> sint yi < 256"
    using Cons.prems(1) by simp
  from Cons.IH [OF rest l1]
  obtain cv' where s2: "setPixels ps c cv1 = Inr cv'" and l2: "length (data cv') = 262144"
    and n2: "\<And>j. data cv' ! j =
              (if \<exists>(xi, yi) \<in> set ps. j div 4 = pixel_index xi yi
               then cbyte c (j mod 4) else data cv1 ! j)"
    by blast
  have "setPixels (p # ps) c cv = Inr cv'" using s1 s2 by (simp add: p)
  moreover have "data cv' ! j =
              (if \<exists>(xi, yi) \<in> set (p # ps). j div 4 = pixel_index xi yi
               then cbyte c (j mod 4) else data cv ! j)" for j
    unfolding n2 n1 by (auto simp: p)
  ultimately show ?case using l2 by blast
qed

section \<open>What drawRect draws\<close>

lemma unat_store: "unat (WIDTH * HEIGHT * DEPTH) = 262144"
  by (simp add: WIDTH_def HEIGHT_def DEPTH_def)

lemma drawRect_nth:
  assumes "length (data cv) = 262144"
  shows "\<exists>cv'. drawRect x y w h c cv = Inr cv' \<and> length (data cv') = 262144 \<and>
           (\<forall>j. data cv' ! j =
              (if \<exists>(xi, yi) \<in> set (drawRect_pixels x y w h). j div 4 = pixel_index xi yi
               then cbyte c (j mod 4) else data cv ! j))"
proof -
  have "\<forall>(xi, yi) \<in> set (drawRect_pixels x y w h).
          0 \<le> sint xi \<and> sint xi < 256 \<and> 0 \<le> sint yi \<and> sint yi < 256"
    using drawRect_pixels_range by blast
  from setPixels_ok [OF this assms, of c] show ?thesis by (simp add: drawRect_def)
qed

lemma sint_of_nat_small: "k < 256 \<Longrightarrow> sint (word_of_nat k :: int32) = int k"
proof -
  assume k: "k < 256"
  have "sint (word_of_int (int k) :: int32) = signed_take_bit (LENGTH(32) - 1) (int k)"
    by (rule sint_sbintrunc')
  also have "\<dots> = int k" using k by (intro stb31) simp_all
  finally show ?thesis by simp
qed

lemma pixel_index_of_nat:
  "px < 256 \<Longrightarrow> py < 256 \<Longrightarrow> pixel_index (word_of_nat px) (word_of_nat py) = px + 256 * py"
  by (simp add: pixel_index_def sint_of_nat_small)

lemma pixel_index_eq:
  assumes "0 \<le> sint xi" "sint xi < 256" "0 \<le> sint yi" "px < 256"
    and "pixel_index xi yi = px + 256 * py"
  shows "sint xi = int px \<and> sint yi = int py"
proof -
  define a where "a = nat (sint xi)"
  define b where "b = nat (sint yi)"
  have e: "a + 256 * b = px + 256 * py" using assms(5) by (simp add: pixel_index_def a_def b_def)
  have a: "a < 256" using assms(1,2) by (simp add: a_def)
  have "(a + 256 * b) mod 256 = a" using a by simp
  moreover have "(px + 256 * py) mod 256 = px" using assms(4) by simp
  ultimately have 1: "a = px" using e by simp
  then have 2: "b = py" using e by simp
  show ?thesis using 1 2 assms(1,3) unfolding a_def b_def by linarith
qed

lemma quad_div: "(4 * q) div 4 = q" "(4 * q + 1) div 4 = q" "(4 * q + 2) div 4 = q"
  "(4 * q + 3) div 4 = (q::nat)"
  by simp_all

lemma quad_mod: "(4 * q) mod 4 = 0" "(4 * q + 1) mod 4 = 1" "(4 * q + 2) mod 4 = 2"
  "(4 * q + 3) mod 4 = (3::nat)"
  by presburger+

lemma std_clamp_sint: "sint (std_clamp v 0 (256::int32)) = max 0 (min 256 (sint v))"
  by (simp add: std_clamp_def word_sless_alt)

lemma std_min_sint: "sint (std_min a (256::int32)) = min (sint a) 256"
  by (simp add: std_min_def word_sless_alt)

text \<open>The pixels of a rectangle whose far edges do not overflow.\<close>

lemma mem_drawRect_pixels_int:
  assumes "sint (x + w) = sint x + sint w" "sint (y + h) = sint y + sint h"
  shows "(xi, yi) \<in> set (drawRect_pixels x y w h) \<longleftrightarrow>
     0 \<le> sint xi \<and> sint x \<le> sint xi \<and> sint xi < 256 \<and> sint xi < sint x + sint w \<and>
     0 \<le> sint yi \<and> sint y \<le> sint yi \<and> sint yi < 256 \<and> sint yi < sint y + sint h"
  unfolding mem_drawRect_pixels WIDTH_def HEIGHT_def std_clamp_sint std_min_sint assms
  by auto

lemma drawRect_pixel_at:
  assumes len: "length (data cv) = 262144"
    and nov: "sint (x + w) = sint x + sint w" "sint (y + h) = sint y + sint h"
  shows "\<exists>cv'. drawRect x y w h c cv = Inr cv' \<and> length (data cv') = 262144 \<and>
           (\<forall>px<256. \<forall>py<256. pixel_at cv' px py =
              (if sint x \<le> int px \<and> int px < sint x + sint w \<and>
                  sint y \<le> int py \<and> int py < sint y + sint h
               then c else pixel_at cv px py))"
proof -
  from drawRect_nth [OF len, of x y w h c]
  obtain cv' where d: "drawRect x y w h c cv = Inr cv'" and l: "length (data cv') = 262144"
    and n: "\<And>j. data cv' ! j =
              (if \<exists>(xi, yi) \<in> set (drawRect_pixels x y w h). j div 4 = pixel_index xi yi
               then cbyte c (j mod 4) else data cv ! j)"
    by blast
  have "pixel_at cv' px py =
              (if sint x \<le> int px \<and> int px < sint x + sint w \<and>
                  sint y \<le> int py \<and> int py < sint y + sint h
               then c else pixel_at cv px py)" if p: "px < 256" "py < 256" for px py
  proof -
    let ?p = "px + 256 * py"
    let ?in = "sint x \<le> int px \<and> int px < sint x + sint w \<and>
                  sint y \<le> int py \<and> int py < sint y + sint h"
    have ex: "(\<exists>(xi, yi) \<in> set (drawRect_pixels x y w h). ?p = pixel_index xi yi) \<longleftrightarrow> ?in"
    proof
      assume "\<exists>(xi, yi) \<in> set (drawRect_pixels x y w h). ?p = pixel_index xi yi"
      then obtain xi yi where m: "(xi, yi) \<in> set (drawRect_pixels x y w h)"
        and e: "pixel_index xi yi = ?p" by auto
      from m have r: "0 \<le> sint xi" "sint x \<le> sint xi" "sint xi < 256" "sint xi < sint x + sint w"
        "0 \<le> sint yi" "sint y \<le> sint yi" "sint yi < 256" "sint yi < sint y + sint h"
        unfolding mem_drawRect_pixels_int [OF nov] by simp_all
      from pixel_index_eq [OF r(1) r(3) r(5) p(1) e] show ?in using r by simp
    next
      assume i: ?in
      have "(word_of_nat px, word_of_nat py) \<in> set (drawRect_pixels x y w h)"
        unfolding mem_drawRect_pixels_int [OF nov] using i p by (simp add: sint_of_nat_small)
      moreover have "?p = pixel_index (word_of_nat px :: int32) (word_of_nat py)"
        using p by (simp add: pixel_index_of_nat)
      ultimately show "\<exists>(xi, yi) \<in> set (drawRect_pixels x y w h). ?p = pixel_index xi yi"
        by blast
    qed
    obtain b0 b1 b2 b3 where c: "c = (b0, b1, b2, b3)" by (cases c) auto
    show ?thesis
      unfolding pixel_at_def Let_def n quad_div quad_mod ex
      by (simp add: c cbyte_def)
  qed
  then show ?thesis using d l by blast
qed

section \<open>drawRect stays inside the canvas\<close>

lemma sint_add_cases:
  fixes a b :: int32
  shows "sint (a + b) =
     (if sint a + sint b < - 2147483648 then sint a + sint b + 4294967296
      else if 2147483648 \<le> sint a + sint b then sint a + sint b - 4294967296
      else sint a + sint b)"
proof -
  define k where "k = sint a + sint b"
  have la: "- 2147483648 \<le> sint a" "sint a < 2147483648"
    using sint_ge [of a] sint_lt [of a] by simp_all
  have lb: "- 2147483648 \<le> sint b" "sint b < 2147483648"
    using sint_ge [of b] sint_lt [of b] by simp_all
  have kb: "- 4294967296 \<le> k" "k < 4294967296" using la lb by (simp_all add: k_def)
  have s: "sint (a + b) = signed_take_bit (LENGTH(32) - 1) k"
    unfolding k_def by (rule sint_word_add)
  have t: "signed_take_bit (LENGTH(32) - 1) k = (k + 2147483648) mod 4294967296 - 2147483648"
    by (simp add: signed_take_bit_eq_take_bit_shift take_bit_eq_mod)
  consider "k < - 2147483648" | "2147483648 \<le> k" | "- 2147483648 \<le> k" "k < 2147483648"
    by linarith
  then have "(k + 2147483648) mod 4294967296 - 2147483648 =
     (if k < - 2147483648 then k + 4294967296
      else if 2147483648 \<le> k then k - 4294967296 else k)"
  proof cases
    case 1
    have "(k + 2147483648) mod 4294967296 = (k + 2147483648 + 4294967296) mod 4294967296"
      by (simp only: mod_add_self2)
    also have "\<dots> = k + 2147483648 + 4294967296"
      using 1 kb by (intro mod_pos_pos_trivial) simp_all
    finally show ?thesis using 1 by simp
  next
    case 2
    have e: "k + 2147483648 = (k - 2147483648) + 4294967296" by simp
    have "(k + 2147483648) mod 4294967296 = (k - 2147483648) mod 4294967296"
      by (subst e) (simp only: mod_add_self2)
    also have "\<dots> = k - 2147483648"
      using 2 kb by (intro mod_pos_pos_trivial) simp_all
    finally show ?thesis using 2 by simp
  next
    case 3
    have "(k + 2147483648) mod 4294967296 = k + 2147483648"
      using 3 by (intro mod_pos_pos_trivial) simp_all
    then show ?thesis using 3 by simp
  qed
  then have "sint (a + b) =
     (if k < - 2147483648 then k + 4294967296
      else if 2147483648 \<le> k then k - 4294967296 else k)"
    by (simp only: s t)
  then show ?thesis unfolding k_def .
qed

lemma drawRect_pixels_empty_iff:
  "drawRect_pixels x y w h = [] \<longleftrightarrow>
     (\<forall>px<256. \<forall>py<256. \<not> (sint x \<le> int px \<and> int px < sint (x + w) \<and>
                              sint y \<le> int py \<and> int py < sint (y + h)))"
proof
  assume e: "drawRect_pixels x y w h = []"
  show "\<forall>px<256. \<forall>py<256. \<not> (sint x \<le> int px \<and> int px < sint (x + w) \<and>
                              sint y \<le> int py \<and> int py < sint (y + h))"
  proof (intro allI impI notI)
    fix px py :: nat
    assume p: "px < 256" "py < 256"
      and i: "sint x \<le> int px \<and> int px < sint (x + w) \<and> sint y \<le> int py \<and> int py < sint (y + h)"
    have "(word_of_nat px, word_of_nat py) \<in> set (drawRect_pixels x y w h)"
      unfolding mem_drawRect_pixels WIDTH_def HEIGHT_def std_clamp_sint std_min_sint
      using i p by (simp add: sint_of_nat_small)
    then show False using e by simp
  qed
next
  assume a: "\<forall>px<256. \<forall>py<256. \<not> (sint x \<le> int px \<and> int px < sint (x + w) \<and>
                              sint y \<le> int py \<and> int py < sint (y + h))"
  have "p \<notin> set (drawRect_pixels x y w h)" for p
  proof
    assume pin: "p \<in> set (drawRect_pixels x y w h)"
    obtain xi yi where pe: "p = (xi, yi)" by (cases p)
    with pin have m: "(xi, yi) \<in> set (drawRect_pixels x y w h)" by simp
    from drawRect_pixels_range [OF m]
    have r: "0 \<le> sint xi" "sint xi < 256" "0 \<le> sint yi" "sint yi < 256" by simp_all
    from m have b: "max 0 (min 256 (sint x)) \<le> sint xi" "sint xi < min (sint (x + w)) 256"
      "max 0 (min 256 (sint y)) \<le> sint yi" "sint yi < min (sint (y + h)) 256"
      unfolding mem_drawRect_pixels WIDTH_def HEIGHT_def std_clamp_sint std_min_sint by simp_all
    have "nat (sint xi) < 256" "nat (sint yi) < 256" using r by simp_all
    with a have "\<not> (sint x \<le> int (nat (sint xi)) \<and> int (nat (sint xi)) < sint (x + w) \<and>
        sint y \<le> int (nat (sint yi)) \<and> int (nat (sint yi)) < sint (y + h))" by blast
    then show False using r b by simp
  qed
  then show "drawRect_pixels x y w h = []" by (cases "drawRect_pixels x y w h") auto
qed

text \<open>
  C1, as the code has it. Whatever \<open>x\<close>, \<open>y\<close>, \<open>w\<close>, \<open>h\<close> (any 32-bit values, with the
  additions wrapping around), every pixel that \<open>drawRect\<close> passes to \<open>setPixel\<close> has
  its coordinates in \<open>[0, WIDTH) \<times> [0, HEIGHT)\<close> and its four bytes inside \<open>data\<close>; so
  \<open>drawRect\<close> never fails and leaves the size of \<open>data\<close> as it is. It makes no call
  to \<open>setPixel\<close>, and then leaves the canvas as it is, exactly when no pixel
  \<open>(px, py)\<close> of the canvas has \<open>x \<le> px < x + w\<close> and \<open>y \<le> py < y + h\<close> with the far
  edges \<open>x + w\<close> and \<open>y + h\<close> as the code computes them: the exact sum where that
  is an \<open>int\<close>, the exact sum less \<open>2 ^ 32\<close> where it is \<open>2 ^ 31\<close> or more, the
  exact sum plus \<open>2 ^ 32\<close> where it is below \<open>- 2 ^ 31\<close>. So a rectangle that lies
  fully outside the canvas (no pixel of the canvas between its exact edges) writes
  nothing whenever neither far edge is below \<open>- 2 ^ 31\<close>.
\<close>

theorem drawRect_stays_inside:
  assumes len: "length (data cv) = unat (WIDTH * HEIGHT * DEPTH)"
  shows "(\<forall>(xi, yi) \<in> set (drawRect_pixels x y w h).
            0 \<le> sint xi \<and> sint xi < sint WIDTH \<and> 0 \<le> sint yi \<and> sint yi < sint HEIGHT \<and>
            0 \<le> sint ((xi + yi * WIDTH) * DEPTH) \<and>
            nat (sint ((xi + yi * WIDTH) * DEPTH)) + 4 \<le> length (data cv)) \<and>
         (\<exists>cv'. drawRect x y w h c cv = Inr cv' \<and> length (data cv') = length (data cv)) \<and>
         (drawRect_pixels x y w h = [] \<longrightarrow> drawRect x y w h c cv = Inr cv) \<and>
         (drawRect_pixels x y w h = [] \<longleftrightarrow>
            (\<forall>px<256. \<forall>py<256. \<not> (sint x \<le> int px \<and> int px < sint (x + w) \<and>
                                     sint y \<le> int py \<and> int py < sint (y + h)))) \<and>
         sint (x + w) =
            (if sint x + sint w < - (2 ^ 31) then sint x + sint w + 2 ^ 32
             else if 2 ^ 31 \<le> sint x + sint w then sint x + sint w - 2 ^ 32
             else sint x + sint w) \<and>
         sint (y + h) =
            (if sint y + sint h < - (2 ^ 31) then sint y + sint h + 2 ^ 32
             else if 2 ^ 31 \<le> sint y + sint h then sint y + sint h - 2 ^ 32
             else sint y + sint h) \<and>
         (- (2 ^ 31) \<le> sint x + sint w \<and> - (2 ^ 31) \<le> sint y + sint h \<and>
          (\<forall>px<256. \<forall>py<256. \<not> (sint x \<le> int px \<and> int px < sint x + sint w \<and>
                                   sint y \<le> int py \<and> int py < sint y + sint h)) \<longrightarrow>
            drawRect_pixels x y w h = [] \<and> drawRect x y w h c cv = Inr cv)"
proof -
  have l: "length (data cv) = 262144" using len by (simp add: unat_store)
  have A: "\<forall>(xi, yi) \<in> set (drawRect_pixels x y w h).
            0 \<le> sint xi \<and> sint xi < sint WIDTH \<and> 0 \<le> sint yi \<and> sint yi < sint HEIGHT \<and>
            0 \<le> sint ((xi + yi * WIDTH) * DEPTH) \<and>
            nat (sint ((xi + yi * WIDTH) * DEPTH)) + 4 \<le> length (data cv)"
  proof (intro ballI, clarify)
    fix xi yi assume "(xi, yi) \<in> set (drawRect_pixels x y w h)"
    from drawRect_pixels_range [OF this]
    have r: "0 \<le> sint xi" "sint xi < 256" "0 \<le> sint yi" "sint yi < 256" by simp_all
    show "0 \<le> sint xi \<and> sint xi < sint WIDTH \<and> 0 \<le> sint yi \<and> sint yi < sint HEIGHT \<and>
            0 \<le> sint ((xi + yi * WIDTH) * DEPTH) \<and>
            nat (sint ((xi + yi * WIDTH) * DEPTH)) + 4 \<le> length (data cv)"
      using r l by (simp add: pixel_offset [OF r] sint_WIDTH sint_HEIGHT)
  qed
  have "\<forall>(xi, yi) \<in> set (drawRect_pixels x y w h).
          0 \<le> sint xi \<and> sint xi < 256 \<and> 0 \<le> sint yi \<and> sint yi < 256"
    using drawRect_pixels_range by blast
  from setPixels_ok [OF this l, of c]
  have B: "\<exists>cv'. drawRect x y w h c cv = Inr cv' \<and> length (data cv') = length (data cv)"
    unfolding drawRect_def using l by auto
  have C: "drawRect_pixels x y w h = [] \<longrightarrow> drawRect x y w h c cv = Inr cv"
    by (simp add: drawRect_def)
  have D: "drawRect_pixels x y w h = [] \<longleftrightarrow>
            (\<forall>px<256. \<forall>py<256. \<not> (sint x \<le> int px \<and> int px < sint (x + w) \<and>
                                     sint y \<le> int py \<and> int py < sint (y + h)))"
    by (rule drawRect_pixels_empty_iff)
  have Ex: "sint (x + w) =
            (if sint x + sint w < - (2 ^ 31) then sint x + sint w + 2 ^ 32
             else if 2 ^ 31 \<le> sint x + sint w then sint x + sint w - 2 ^ 32
             else sint x + sint w)"
    using sint_add_cases [of x w] by simp
  have Ey: "sint (y + h) =
            (if sint y + sint h < - (2 ^ 31) then sint y + sint h + 2 ^ 32
             else if 2 ^ 31 \<le> sint y + sint h then sint y + sint h - 2 ^ 32
             else sint y + sint h)"
    using sint_add_cases [of y h] by simp
  have F: "drawRect_pixels x y w h = [] \<and> drawRect x y w h c cv = Inr cv"
    if nu: "- (2 ^ 31) \<le> sint x + sint w" "- (2 ^ 31) \<le> sint y + sint h"
      and out: "\<forall>px<256. \<forall>py<256. \<not> (sint x \<le> int px \<and> int px < sint x + sint w \<and>
                                   sint y \<le> int py \<and> int py < sint y + sint h)"
  proof -
    have fx: "sint (x + w) \<le> sint x + sint w" using nu(1) sint_add_cases [of x w] by simp
    have fy: "sint (y + h) \<le> sint y + sint h" using nu(2) sint_add_cases [of y h] by simp
    have "\<not> (sint x \<le> int px \<and> int px < sint (x + w) \<and>
              sint y \<le> int py \<and> int py < sint (y + h))" if "px < 256" "py < 256" for px py
      using out [rule_format, OF that] fx fy by linarith
    then have "drawRect_pixels x y w h = []" unfolding drawRect_pixels_empty_iff by blast
    then show ?thesis by (simp add: drawRect_def)
  qed
  show ?thesis using A B C D Ex Ey F by blast
qed

text \<open>
  The theorem at a rectangle that crosses the corner, at one outside and at one of
  negative width.
\<close>

theorem drawRect_stays_inside_witness:
  "drawRect_pixels (- 2) 254 4 5 = [(0, 254), (1, 254), (0, 255), (1, 255)] \<and>
   (\<exists>cv'. drawRect (- 2) 254 4 5 (Color 255 0 0) Canvas_new = Inr cv' \<and>
           length (data cv') = 262144) \<and>
   drawRect_pixels 300 (- 5) 10 10 = [] \<and>
   drawRect 300 (- 5) 10 10 (Color 255 0 0) Canvas_new = Inr Canvas_new \<and>
   drawRect_pixels (- 20) 7 (- 3) 9 = [] \<and>
   drawRect (- 20) 7 (- 3) 9 (Color 255 0 0) Canvas_new = Inr Canvas_new"
proof -
  have l: "length (data Canvas_new) = unat (WIDTH * HEIGHT * DEPTH)"
    by (simp add: Canvas_new_def)
  have p: "drawRect_pixels (- 2) 254 4 5 = [(0, 254), (1, 254), (0, 255), (1, 255)]"
    by (simp add: drawRect_pixels_def std_clamp_def std_min_def WIDTH_def HEIGHT_def
        for_range.simps word_sless_alt)
  have a: "\<exists>cv'. drawRect (- 2) 254 4 5 (Color 255 0 0) Canvas_new = Inr cv' \<and>
           length (data cv') = 262144"
    using drawRect_stays_inside [OF l, of "- 2" 254 4 5 "Color 255 0 0"]
    by (simp add: unat_store Canvas_new_def)
  have o1: "- (2 ^ 31) \<le> sint (300::int32) + sint (10::int32) \<and>
      - (2 ^ 31) \<le> sint (- 5::int32) + sint (10::int32) \<and>
      (\<forall>px<256. \<forall>py<256. \<not> (sint (300::int32) \<le> int px \<and>
          int px < sint (300::int32) + sint (10::int32) \<and>
          sint (- 5::int32) \<le> int py \<and> int py < sint (- 5::int32) + sint (10::int32)))"
    by simp
  have b: "drawRect_pixels 300 (- 5) 10 10 = [] \<and>
      drawRect 300 (- 5) 10 10 (Color 255 0 0) Canvas_new = Inr Canvas_new"
    using drawRect_stays_inside [OF l, of 300 "- 5" 10 10 "Color 255 0 0"] o1 by blast
  have o2: "- (2 ^ 31) \<le> sint (- 20::int32) + sint (- 3::int32) \<and>
      - (2 ^ 31) \<le> sint (7::int32) + sint (9::int32) \<and>
      (\<forall>px<256. \<forall>py<256. \<not> (sint (- 20::int32) \<le> int px \<and>
          int px < sint (- 20::int32) + sint (- 3::int32) \<and>
          sint (7::int32) \<le> int py \<and> int py < sint (7::int32) + sint (9::int32)))"
    by simp
  have c: "drawRect_pixels (- 20) 7 (- 3) 9 = [] \<and>
      drawRect (- 20) 7 (- 3) 9 (Color 255 0 0) Canvas_new = Inr Canvas_new"
    using drawRect_stays_inside [OF l, of "- 20" 7 "- 3" 9 "Color 255 0 0"] o2 by blast
  show ?thesis using p a b c by blast
qed

text \<open>
  C1 as stated fails where a far edge underflows. For \<open>x = - 2 ^ 31\<close> and
  \<open>w = - 1\<close> the exact far edge \<open>- 2 ^ 31 - 1\<close> is left of the canvas, and left of
  \<open>x\<close>: the rectangle is outside the canvas (and empty). The computed far edge is
  \<open>2 ^ 31 - 1\<close>, and with \<open>y = 0\<close>, \<open>h = 1\<close> the call paints all 256 pixels of
  row 0.
\<close>

theorem drawRect_underflow_counterexample:
  "sint (- 2147483648 :: int32) + sint (- 1 :: int32) = - 2147483649 \<and>
   sint ((- 2147483648) + (- 1) :: int32) = 2147483647 \<and>
   (\<forall>xi yi. (xi, yi) \<in> set (drawRect_pixels (- 2147483648) 0 (- 1) 1)
       \<longleftrightarrow> 0 \<le> sint xi \<and> sint xi < 256 \<and> yi = 0) \<and>
   drawRect_pixels (- 2147483648) 0 (- 1) 1 \<noteq> [] \<and>
   (\<exists>cv'. drawRect (- 2147483648) 0 (- 1) 1 (Color 255 0 0) Canvas_new = Inr cv' \<and>
      pixel_at Canvas_new 0 0 = (0, 0, 0, 0) \<and>
      pixel_at cv' 0 0 = (255, 0, 0, 255) \<and> pixel_at cv' 255 0 = (255, 0, 0, 255))"
proof -
  have s1: "sint (- 2147483648 :: int32) + sint (- 1 :: int32) = - 2147483649" by simp
  have s2: "sint ((- 2147483648) + (- 1) :: int32) = 2147483647" by simp
  have s3: "sint ((0::int32) + 1) = 1" by simp
  have m: "(xi, yi) \<in> set (drawRect_pixels (- 2147483648) 0 (- 1) 1)
       \<longleftrightarrow> 0 \<le> sint xi \<and> sint xi < 256 \<and> yi = 0" for xi yi :: int32
  proof -
    have "0 \<le> sint yi \<and> sint yi < 1 \<longleftrightarrow> sint yi = sint (0::int32)" by auto
    also have "\<dots> \<longleftrightarrow> yi = 0" by (rule sint_inj)
    finally have y: "0 \<le> sint yi \<and> sint yi < 1 \<longleftrightarrow> yi = 0" .
    show ?thesis
      unfolding mem_drawRect_pixels WIDTH_def HEIGHT_def std_clamp_sint std_min_sint s2 s3
      using y by auto
  qed
  have z: "((0::int32), (0::int32)) \<in> set (drawRect_pixels (- 2147483648) 0 (- 1) 1)"
    unfolding m by simp
  then have ne: "drawRect_pixels (- 2147483648) 0 (- 1) 1 \<noteq> []" by auto
  have l: "length (data Canvas_new) = 262144" by (simp add: Canvas_new_def unat_store)
  from drawRect_nth [OF l, of "- 2147483648" 0 "- 1" 1 "Color 255 0 0"]
  obtain cv' where d: "drawRect (- 2147483648) 0 (- 1) 1 (Color 255 0 0) Canvas_new = Inr cv'"
    and n: "\<And>j. data cv' ! j =
              (if \<exists>(xi, yi) \<in> set (drawRect_pixels (- 2147483648) 0 (- 1) 1). j div 4 = pixel_index xi yi
               then cbyte (Color 255 0 0) (j mod 4) else data Canvas_new ! j)"
    by blast
  have q: "\<exists>(xi, yi) \<in> set (drawRect_pixels (- 2147483648) 0 (- 1) 1). j div 4 = pixel_index xi yi"
    if "j div 4 < 256" for j
  proof -
    have "(word_of_nat (j div 4), 0) \<in> set (drawRect_pixels (- 2147483648) 0 (- 1) 1)"
      unfolding m using that by (simp add: sint_of_nat_small)
    moreover have "j div 4 = pixel_index (word_of_nat (j div 4) :: int32) 0"
      using pixel_index_of_nat [of "j div 4" 0] that by simp
    ultimately show ?thesis by blast
  qed
  have b: "data cv' ! j = cbyte (Color 255 0 0) (j mod 4)" if "j div 4 < 256" for j
    using n [of j] q [OF that] by simp
  have p0: "pixel_at cv' 0 0 = (255, 0, 0, 255)"
    by (simp add: pixel_at_def b cbyte_def Color_def)
  have p255: "pixel_at cv' 255 0 = (255, 0, 0, 255)"
    by (simp add: pixel_at_def b cbyte_def Color_def)
  have p00: "pixel_at Canvas_new 0 0 = (0, 0, 0, 0)"
    by (simp add: pixel_at_def Canvas_new_def unat_store)
  show ?thesis using s1 s2 m ne d p0 p255 p00 by blast
qed

section \<open>Key queries\<close>

lemma isKeyDown_in: "KeyCode_int k < length body \<Longrightarrow> isKeyDown body k = Inr (body ! KeyCode_int k = CHR ''1'')"
  by (simp add: isKeyDown_def)

lemma isKeyDown_out: "length body \<le> KeyCode_int k \<Longrightarrow> isKeyDown body k = Inl OutOfBounds"
  by (simp add: isKeyDown_def)

lemma Hero_update_long:
  assumes "40 < length body"
  shows "Hero_update body h =
    Inr (let h1 = (if body ! 37 = CHR ''1'' then h\<lparr>pos_x := float32 (pos_x h - 8)\<rparr> else h);
             h2 = (if body ! 38 = CHR ''1'' then h1\<lparr>pos_y := float32 (pos_y h1 - 8)\<rparr> else h1);
             h3 = (if body ! 39 = CHR ''1'' then h2\<lparr>pos_x := float32 (pos_x h2 + 8)\<rparr> else h2)
         in (if body ! 40 = CHR ''1'' then h3\<lparr>pos_y := float32 (pos_y h3 + 8)\<rparr> else h3))"
  using assms by (simp add: Hero_update_def isKeyDown_def and_then_def Let_def)

lemma Hero_update_short:
  assumes "length body \<le> 40"
  shows "Hero_update body h = Inl OutOfBounds"
  using assms by (auto simp: Hero_update_def isKeyDown_def and_then_def Let_def)

lemma length_keys: "length (keys ps) = 256"
  by (simp add: keys_def)

lemma nth_keys: "i < 256 \<Longrightarrow> keys ps ! i = (if i \<in> set ps then CHR ''1'' else CHR ''0'')"
  by (simp add: keys_def)

text \<open>
  C2, as the code has it. A key query below the length of the body never fails and
  answers whether the character there is \<open>1\<close>. A query at or beyond the length is
  not "not pressed": \<open>isKeyDown\<close> reads with no check, outside the body. So
  \<open>Hero::update\<close> succeeds on every body of 41 characters or more, and on every
  shorter body one of its four reads is out of bounds.
\<close>

theorem isKeyDown_checks_nothing:
  "(KeyCode_int k < length body \<longrightarrow> isKeyDown body k = Inr (body ! KeyCode_int k = CHR ''1'')) \<and>
   (length body \<le> KeyCode_int k \<longrightarrow> isKeyDown body k = Inl OutOfBounds) \<and>
   (40 < length body \<longrightarrow> (\<exists>h'. Hero_update body h = Inr h')) \<and>
   (length body \<le> 40 \<longrightarrow> Hero_update body h = Inl OutOfBounds)"
  using Hero_update_long [of body h] Hero_update_short [of body h]
  by (simp add: isKeyDown_in isKeyDown_out)

text \<open>The theorem at the body with ArrowRight down and at the empty body.\<close>

theorem isKeyDown_checks_nothing_witness:
  "isKeyDown (keys [39]) ArrowRight = Inr True \<and>
   isKeyDown [] ArrowLeft = Inl OutOfBounds \<and>
   (\<exists>h'. Hero_update (keys [39]) Hero_new = Inr h') \<and>
   Hero_update [] Hero_new = Inl OutOfBounds"
  using isKeyDown_checks_nothing [of ArrowRight "keys [39]" Hero_new]
    isKeyDown_checks_nothing [of ArrowLeft "[]" Hero_new]
  by (simp add: length_keys nth_keys)

text \<open>
  C2 as stated fails: on the empty body (a POST with nothing after the blank line)
  the query for ArrowLeft is not answered "not pressed": it reads index 37 of a
  body of length 0, out of bounds, and so does \<open>Hero::update\<close>.
\<close>

theorem isKeyDown_short_body_counterexample:
  "isKeyDown [] ArrowLeft \<noteq> Inr False \<and>
   isKeyDown [] ArrowLeft = Inl OutOfBounds \<and>
   Hero_update [] Hero_new = Inl OutOfBounds \<and>
   getRequestBody (''POST / HTTP/1.1'' @ CRLF @ CRLF) = Inr []"
  by (simp add: isKeyDown_def Hero_update_short getRequestBody_def getRequestLine_def
      substr_def and_then_def str_find_def npos_def CRLF_def CR_def LF_def)

section \<open>Rounding to binary32\<close>

lemma float32_small: "\<bar>v\<bar> < 2 ^ 24 \<Longrightarrow> float32 v = v"
  by (simp add: float32_def Let_def)

lemma float32_dvd:
  assumes "2 ^ nat (bitlen \<bar>v\<bar> - 24) dvd \<bar>v\<bar>"
  shows "float32 v = v"
proof (cases "\<bar>v\<bar> < 2 ^ 24")
  case True
  then show ?thesis by (rule float32_small)
next
  case False
  define e where "e = nat (bitlen \<bar>v\<bar> - 24)"
  have r: "\<bar>v\<bar> mod 2 ^ e = 0" using assms by (simp add: e_def)
  have q: "\<bar>v\<bar> div 2 ^ e * 2 ^ e = \<bar>v\<bar>" using assms by (simp add: e_def)
  have h: "(0::int) < 2 ^ (e - 1)" by simp
  have "float32 v = sgn v * (\<bar>v\<bar> div 2 ^ e * 2 ^ e)"
    using False r h unfolding float32_def Let_def e_def [symmetric] by simp
  also have "\<dots> = v" unfolding q by (simp add: sgn_mult_abs)
  finally show ?thesis .
qed

lemma float32_exact:
  assumes d: "8 dvd v" and b: "\<bar>v\<bar> \<le> 2 ^ 27"
  shows "float32 v = v"
proof (cases "\<bar>v\<bar> = 2 ^ 27")
  case True
  have "bitlen \<bar>v\<bar> = 28" using bitlen_twopow_add_eq [of 0 27] True by simp
  then have "nat (bitlen \<bar>v\<bar> - 24) = 4" by simp
  then have "2 ^ nat (bitlen \<bar>v\<bar> - 24) dvd \<bar>v\<bar>" using True by simp
  then show ?thesis by (rule float32_dvd)
next
  case False
  then have "\<bar>v\<bar> < 2 ^ nat 27" using b by simp
  then have "bitlen \<bar>v\<bar> \<le> 27" by (simp add: bitlen_le_iff_power)
  then have "nat (bitlen \<bar>v\<bar> - 24) \<le> 3" by simp
  then have "(2::int) ^ nat (bitlen \<bar>v\<bar> - 24) dvd 2 ^ 3" by (rule le_imp_power_dvd)
  moreover have "(2::int) ^ 3 dvd \<bar>v\<bar>" using d by simp
  ultimately have "2 ^ nat (bitlen \<bar>v\<bar> - 24) dvd \<bar>v\<bar>" by (rule dvd_trans)
  then show ?thesis by (rule float32_dvd)
qed

lemma float32_top: "float32 (2 ^ 27 + 8) = 2 ^ 27"
proof -
  have "bitlen (134217736::int) = 28" using bitlen_twopow_add_eq [of 8 27] by simp
  then show ?thesis by (simp add: float32_def Let_def)
qed

lemma float32_bottom: "float32 (- (2 ^ 27) - 8) = - (2 ^ 27)"
proof -
  have "bitlen (134217736::int) = 28" using bitlen_twopow_add_eq [of 8 27] by simp
  then show ?thesis by (simp add: float32_def Let_def)
qed

section \<open>Hero::update\<close>

lemma Hero_new_eq: "Hero_new = \<lparr>pos_x = 128, pos_y = 128\<rparr>"
  by (simp add: Hero_new_def WIDTH_def HEIGHT_def float32_small)

lemma Hero_update_none:
  assumes "40 < length body" "body ! 37 \<noteq> CHR ''1''" "body ! 38 \<noteq> CHR ''1''"
    "body ! 39 \<noteq> CHR ''1''" "body ! 40 \<noteq> CHR ''1''"
  shows "Hero_update body h = Inr h"
  using assms by (simp add: Hero_update_long)

lemma Hero_update_right:
  assumes "40 < length body" "body ! 37 \<noteq> CHR ''1''" "body ! 38 \<noteq> CHR ''1''"
    "body ! 39 = CHR ''1''" "body ! 40 \<noteq> CHR ''1''"
    and "8 dvd pos_x h" "- (2 ^ 27) \<le> pos_x h" "pos_x h < 2 ^ 27"
  shows "Hero_update body h = Inr (h\<lparr>pos_x := pos_x h + 8\<rparr>)"
proof -
  have "8 dvd pos_x h + 8" using assms(6) by simp
  moreover have "\<bar>pos_x h + 8\<bar> \<le> 2 ^ 27" using assms(6-8) by (auto elim!: dvdE)
  ultimately have "float32 (pos_x h + 8) = pos_x h + 8" by (rule float32_exact)
  then show ?thesis using assms(1-5) by (simp add: Hero_update_long)
qed

lemma Hero_updates_right:
  assumes "8 dvd x" "- (2 ^ 27) \<le> x" "x + 8 * int n \<le> 2 ^ 27"
  shows "Hero_updates (replicate n (keys [39])) \<lparr>pos_x = x, pos_y = y\<rparr>
           = Inr \<lparr>pos_x = x + 8 * int n, pos_y = y\<rparr>"
  using assms
proof (induction n arbitrary: x)
  case 0
  then show ?case by simp
next
  case (Suc n)
  have "Hero_update (keys [39]) \<lparr>pos_x = x, pos_y = y\<rparr>
      = Inr (\<lparr>pos_x = x, pos_y = y\<rparr>\<lparr>pos_x := pos_x \<lparr>pos_x = x, pos_y = y\<rparr> + 8\<rparr>)"
    using Suc.prems by (intro Hero_update_right) (simp_all add: length_keys nth_keys)
  then have s: "Hero_update (keys [39]) \<lparr>pos_x = x, pos_y = y\<rparr> = Inr \<lparr>pos_x = x + 8, pos_y = y\<rparr>"
    by simp
  have "Hero_updates (replicate n (keys [39])) \<lparr>pos_x = x + 8, pos_y = y\<rparr>
           = Inr \<lparr>pos_x = x + 8 + 8 * int n, pos_y = y\<rparr>"
    using Suc.prems by (intro Suc.IH) simp_all
  then show ?case using s by (simp add: and_then_def algebra_simps)
qed

text \<open>
  The positions the hero can take: multiples of 8 of magnitude at most \<open>2 ^ 27\<close>, as
  the start position is. There a sum \<open>v + 8\<close> or \<open>v - 8\<close> is a binary32 value, but for
  \<open>2 ^ 27 + 8\<close> and \<open>- 2 ^ 27 - 8\<close>, which round back to \<open>2 ^ 27\<close> and \<open>- 2 ^ 27\<close>. So
  \<open>Hero::update\<close> never leaves these positions and moves the hero by at most 8 along
  each axis.
\<close>

lemma float32_up:
  assumes "8 dvd v" "\<bar>v\<bar> \<le> 2 ^ 27"
  shows "float32 (v + 8) = (if v = 2 ^ 27 then v else v + 8)"
proof (cases "v = 2 ^ 27")
  case True
  then show ?thesis using float32_top by simp
next
  case False
  have d: "8 dvd v + 8" using assms(1) by simp
  have "v + 8 \<le> 2 ^ 27" using assms False by (auto elim!: dvdE)
  then have b: "\<bar>v + 8\<bar> \<le> 2 ^ 27" using assms(2) by simp
  show ?thesis unfolding float32_exact [OF d b] using False by simp
qed

lemma float32_down:
  assumes "8 dvd v" "\<bar>v\<bar> \<le> 2 ^ 27"
  shows "float32 (v - 8) = (if v = - (2 ^ 27) then v else v - 8)"
proof (cases "v = - (2 ^ 27)")
  case True
  then show ?thesis using float32_bottom by simp
next
  case False
  have d: "8 dvd v - 8" using assms(1) by simp
  have "- (2 ^ 27) \<le> v - 8" using assms False by (auto elim!: dvdE)
  then have b: "\<bar>v - 8\<bar> \<le> 2 ^ 27" using assms(2) by simp
  show ?thesis unfolding float32_exact [OF d b] using False by simp
qed

lemma axis_step:
  fixes v :: int and dec inc :: bool
  assumes g: "8 dvd v" "\<bar>v\<bar> \<le> 2 ^ 27"
    and v1_def: "v1 = (if dec then float32 (v - 8) else v)"
    and v2_def: "v2 = (if inc then float32 (v1 + 8) else v1)"
  shows "v2 = (if dec \<and> inc then (if v = - (2 ^ 27) then v + 8 else v)
               else if dec then (if v = - (2 ^ 27) then v else v - 8)
               else if inc then (if v = 2 ^ 27 then v else v + 8)
               else v)"
    and "8 dvd v2" and "\<bar>v2\<bar> \<le> 2 ^ 27" and "\<bar>v2 - v\<bar> \<le> 8"
proof -
  have a1: "v1 = (if dec then (if v = - (2 ^ 27) then v else v - 8) else v)"
    unfolding v1_def float32_down [OF g] ..
  have lo: "v \<noteq> - (2 ^ 27) \<Longrightarrow> - (2 ^ 27) \<le> v - 8" using g by (auto elim!: dvdE)
  have g1: "8 dvd v1" "\<bar>v1\<bar> \<le> 2 ^ 27"
    unfolding a1 using g lo by auto
  have a2: "v2 = (if inc then (if v1 = 2 ^ 27 then v1 else v1 + 8) else v1)"
    unfolding v2_def float32_up [OF g1] ..
  show e: "v2 = (if dec \<and> inc then (if v = - (2 ^ 27) then v + 8 else v)
               else if dec then (if v = - (2 ^ 27) then v else v - 8)
               else if inc then (if v = 2 ^ 27 then v else v + 8)
               else v)"
    unfolding a2 a1 using g by auto
  have hi: "v \<noteq> 2 ^ 27 \<Longrightarrow> v + 8 \<le> 2 ^ 27" using g by (auto elim!: dvdE)
  show "8 dvd v2" unfolding e using g by auto
  show "\<bar>v2\<bar> \<le> 2 ^ 27" unfolding e using g lo hi by auto
  show "\<bar>v2 - v\<bar> \<le> 8" unfolding e by auto
qed

lemma Hero_update_on_grid:
  assumes l: "40 < length body"
    and x: "8 dvd pos_x h" "\<bar>pos_x h\<bar> \<le> 2 ^ 27"
    and y: "8 dvd pos_y h" "\<bar>pos_y h\<bar> \<le> 2 ^ 27"
  shows "\<exists>h'. Hero_update body h = Inr h' \<and>
     pos_x h' =
       (if body ! 37 = CHR ''1'' \<and> body ! 39 = CHR ''1''
        then (if pos_x h = - (2 ^ 27) then pos_x h + 8 else pos_x h)
        else if body ! 37 = CHR ''1'' then (if pos_x h = - (2 ^ 27) then pos_x h else pos_x h - 8)
        else if body ! 39 = CHR ''1'' then (if pos_x h = 2 ^ 27 then pos_x h else pos_x h + 8)
        else pos_x h) \<and>
     pos_y h' =
       (if body ! 38 = CHR ''1'' \<and> body ! 40 = CHR ''1''
        then (if pos_y h = - (2 ^ 27) then pos_y h + 8 else pos_y h)
        else if body ! 38 = CHR ''1'' then (if pos_y h = - (2 ^ 27) then pos_y h else pos_y h - 8)
        else if body ! 40 = CHR ''1'' then (if pos_y h = 2 ^ 27 then pos_y h else pos_y h + 8)
        else pos_y h) \<and>
     8 dvd pos_x h' \<and> \<bar>pos_x h'\<bar> \<le> 2 ^ 27 \<and> 8 dvd pos_y h' \<and> \<bar>pos_y h'\<bar> \<le> 2 ^ 27 \<and>
     \<bar>pos_x h' - pos_x h\<bar> \<le> 8 \<and> \<bar>pos_y h' - pos_y h\<bar> \<le> 8"
proof -
  define x1 where "x1 = (if body ! 37 = CHR ''1'' then float32 (pos_x h - 8) else pos_x h)"
  define y1 where "y1 = (if body ! 38 = CHR ''1'' then float32 (pos_y h - 8) else pos_y h)"
  define x2 where "x2 = (if body ! 39 = CHR ''1'' then float32 (x1 + 8) else x1)"
  define y2 where "y2 = (if body ! 40 = CHR ''1'' then float32 (y1 + 8) else y1)"
  have u: "Hero_update body h = Inr \<lparr>pos_x = x2, pos_y = y2\<rparr>"
    unfolding Hero_update_long [OF l] x1_def y1_def x2_def y2_def Let_def
    by (cases h) simp
  note ax = axis_step [OF x x1_def x2_def]
  note ay = axis_step [OF y y1_def y2_def]
  show ?thesis
  proof (intro exI conjI)
    show "Hero_update body h = Inr \<lparr>pos_x = x2, pos_y = y2\<rparr>" by (rule u)
    show "pos_x \<lparr>pos_x = x2, pos_y = y2\<rparr> =
       (if body ! 37 = CHR ''1'' \<and> body ! 39 = CHR ''1''
        then (if pos_x h = - (2 ^ 27) then pos_x h + 8 else pos_x h)
        else if body ! 37 = CHR ''1'' then (if pos_x h = - (2 ^ 27) then pos_x h else pos_x h - 8)
        else if body ! 39 = CHR ''1'' then (if pos_x h = 2 ^ 27 then pos_x h else pos_x h + 8)
        else pos_x h)" using ax(1) by simp
    show "pos_y \<lparr>pos_x = x2, pos_y = y2\<rparr> =
       (if body ! 38 = CHR ''1'' \<and> body ! 40 = CHR ''1''
        then (if pos_y h = - (2 ^ 27) then pos_y h + 8 else pos_y h)
        else if body ! 38 = CHR ''1'' then (if pos_y h = - (2 ^ 27) then pos_y h else pos_y h - 8)
        else if body ! 40 = CHR ''1'' then (if pos_y h = 2 ^ 27 then pos_y h else pos_y h + 8)
        else pos_y h)" using ay(1) by simp
    show "8 dvd pos_x \<lparr>pos_x = x2, pos_y = y2\<rparr>" using ax(2) by simp
    show "\<bar>pos_x \<lparr>pos_x = x2, pos_y = y2\<rparr>\<bar> \<le> 2 ^ 27" using ax(3) by simp
    show "8 dvd pos_y \<lparr>pos_x = x2, pos_y = y2\<rparr>" using ay(2) by simp
    show "\<bar>pos_y \<lparr>pos_x = x2, pos_y = y2\<rparr>\<bar> \<le> 2 ^ 27" using ay(3) by simp
    show "\<bar>pos_x \<lparr>pos_x = x2, pos_y = y2\<rparr> - pos_x h\<bar> \<le> 8" using ax(4) by simp
    show "\<bar>pos_y \<lparr>pos_x = x2, pos_y = y2\<rparr> - pos_y h\<bar> \<le> 8" using ay(4) by simp
  qed
qed

lemma Hero_updates_on_grid:
  assumes "\<forall>b \<in> set bodies. 40 < length b"
    and "8 dvd pos_x h" "\<bar>pos_x h\<bar> \<le> 2 ^ 27" "8 dvd pos_y h" "\<bar>pos_y h\<bar> \<le> 2 ^ 27"
  shows "\<exists>h'. Hero_updates bodies h = Inr h' \<and>
     8 dvd pos_x h' \<and> \<bar>pos_x h'\<bar> \<le> 2 ^ 27 \<and> 8 dvd pos_y h' \<and> \<bar>pos_y h'\<bar> \<le> 2 ^ 27 \<and>
     \<bar>pos_x h' - pos_x h\<bar> \<le> 8 * int (length bodies) \<and>
     \<bar>pos_y h' - pos_y h\<bar> \<le> 8 * int (length bodies)"
  using assms
proof (induction bodies arbitrary: h)
  case Nil
  then show ?case by simp
next
  case (Cons b bs)
  have l: "40 < length b" using Cons.prems(1) by simp
  from Hero_update_on_grid [OF l Cons.prems(2-5)]
  obtain h1 where u: "Hero_update b h = Inr h1"
    and g: "8 dvd pos_x h1" "\<bar>pos_x h1\<bar> \<le> 2 ^ 27" "8 dvd pos_y h1" "\<bar>pos_y h1\<bar> \<le> 2 ^ 27"
    and d: "\<bar>pos_x h1 - pos_x h\<bar> \<le> 8" "\<bar>pos_y h1 - pos_y h\<bar> \<le> 8"
    by blast
  have r: "\<forall>b \<in> set bs. 40 < length b" using Cons.prems(1) by simp
  from Cons.IH [OF r g]
  obtain h' where us: "Hero_updates bs h1 = Inr h'"
    and g': "8 dvd pos_x h'" "\<bar>pos_x h'\<bar> \<le> 2 ^ 27" "8 dvd pos_y h'" "\<bar>pos_y h'\<bar> \<le> 2 ^ 27"
    and d': "\<bar>pos_x h' - pos_x h1\<bar> \<le> 8 * int (length bs)"
      "\<bar>pos_y h' - pos_y h1\<bar> \<le> 8 * int (length bs)"
    by blast
  have "Hero_updates (b # bs) h = Inr h'" using u us by (simp add: and_then_def)
  moreover have "\<bar>pos_x h' - pos_x h\<bar> \<le> 8 * int (length (b # bs))" using d(1) d'(1) by simp
  moreover have "\<bar>pos_y h' - pos_y h\<bar> \<le> 8 * int (length (b # bs))" using d(2) d'(2) by simp
  ultimately show ?case using g' by blast
qed

lemma Hero_updates_left:
  assumes "8 dvd x" "- (2 ^ 27) \<le> x - 8 * int n" "x \<le> 2 ^ 27"
  shows "Hero_updates (replicate n (keys [37])) \<lparr>pos_x = x, pos_y = y\<rparr>
           = Inr \<lparr>pos_x = x - 8 * int n, pos_y = y\<rparr>"
  using assms
proof (induction n arbitrary: x)
  case 0
  then show ?case by simp
next
  case (Suc n)
  have d: "8 dvd x - 8" using Suc.prems(1) by simp
  have b: "\<bar>x - 8\<bar> \<le> 2 ^ 27" using Suc.prems by simp
  have l: "40 < length (keys [37])" by (simp add: length_keys)
  have s: "Hero_update (keys [37]) \<lparr>pos_x = x, pos_y = y\<rparr> = Inr \<lparr>pos_x = x - 8, pos_y = y\<rparr>"
    by (simp add: Hero_update_long [OF l] nth_keys float32_exact [OF d b])
  have "Hero_updates (replicate n (keys [37])) \<lparr>pos_x = x - 8, pos_y = y\<rparr>
           = Inr \<lparr>pos_x = x - 8 - 8 * int n, pos_y = y\<rparr>"
    using Suc.prems by (intro Suc.IH) simp_all
  then show ?case using s by (simp add: and_then_def algebra_simps)
qed

lemma Hero_update_axes:
  assumes l: "40 < length body"
  shows "Hero_update body h = Inr
     \<lparr>pos_x = (if body ! 39 = CHR ''1''
               then float32 ((if body ! 37 = CHR ''1'' then float32 (pos_x h - 8) else pos_x h) + 8)
               else (if body ! 37 = CHR ''1'' then float32 (pos_x h - 8) else pos_x h)),
      pos_y = (if body ! 40 = CHR ''1''
               then float32 ((if body ! 38 = CHR ''1'' then float32 (pos_y h - 8) else pos_y h) + 8)
               else (if body ! 38 = CHR ''1'' then float32 (pos_y h - 8) else pos_y h))\<rparr>"
  unfolding Hero_update_long [OF l] Let_def by (cases h) simp

text \<open>
  C7, as the code has it. On a body that covers the four arrow codes: with none of
  them down the position is unchanged. At a multiple of 8 of magnitude at most
  \<open>2 ^ 27\<close>: with ArrowRight alone down, \<open>x\<close> grows by exactly 8 and \<open>y\<close> is
  unchanged, but at \<open>x = 2 ^ 27\<close>, where \<open>x\<close> stays; ArrowLeft and ArrowRight together
  leave \<open>x\<close>, and ArrowUp and ArrowDown together leave \<open>y\<close>, where it was, but at
  \<open>- 2 ^ 27\<close>, where the coordinate grows by 8. From the start, after any bodies that
  cover the arrow codes, the hero is at such a position, at most 8 times the number
  of bodies away from (128, 128) along each axis: after fewer than 16777200 bodies
  it is strictly inside \<open>- 2 ^ 27\<close> and \<open>2 ^ 27\<close>, where no rounding occurs.
\<close>

theorem Hero_update_displacement:
  assumes "40 < length body"
  shows "((\<forall>k. body ! KeyCode_int k \<noteq> CHR ''1'') \<longrightarrow> Hero_update body h = Inr h) \<and>
         (body ! 37 \<noteq> CHR ''1'' \<and> body ! 38 \<noteq> CHR ''1'' \<and> body ! 39 = CHR ''1'' \<and>
          body ! 40 \<noteq> CHR ''1'' \<and> 8 dvd pos_x h \<and> \<bar>pos_x h\<bar> \<le> 2 ^ 27 \<longrightarrow>
            Hero_update body h =
              Inr (h\<lparr>pos_x := (if pos_x h = 2 ^ 27 then pos_x h else pos_x h + 8)\<rparr>)) \<and>
         (body ! 37 = CHR ''1'' \<and> body ! 39 = CHR ''1'' \<and>
          8 dvd pos_x h \<and> \<bar>pos_x h\<bar> \<le> 2 ^ 27 \<longrightarrow>
            (\<exists>h'. Hero_update body h = Inr h' \<and>
               pos_x h' = (if pos_x h = - (2 ^ 27) then pos_x h + 8 else pos_x h))) \<and>
         (body ! 38 = CHR ''1'' \<and> body ! 40 = CHR ''1'' \<and>
          8 dvd pos_y h \<and> \<bar>pos_y h\<bar> \<le> 2 ^ 27 \<longrightarrow>
            (\<exists>h'. Hero_update body h = Inr h' \<and>
               pos_y h' = (if pos_y h = - (2 ^ 27) then pos_y h + 8 else pos_y h))) \<and>
         ((\<forall>b \<in> set bodies. 40 < length b) \<longrightarrow>
            (\<exists>h'. Hero_updates bodies Hero_new = Inr h' \<and>
               8 dvd pos_x h' \<and> \<bar>pos_x h'\<bar> \<le> 2 ^ 27 \<and> 8 dvd pos_y h' \<and> \<bar>pos_y h'\<bar> \<le> 2 ^ 27 \<and>
               \<bar>pos_x h' - 128\<bar> \<le> 8 * int (length bodies) \<and>
               \<bar>pos_y h' - 128\<bar> \<le> 8 * int (length bodies) \<and>
               (length bodies < 16777200 \<longrightarrow> \<bar>pos_x h'\<bar> < 2 ^ 27 \<and> \<bar>pos_y h'\<bar> < 2 ^ 27)))"
proof (intro conjI impI)
  assume a: "\<forall>k. body ! KeyCode_int k \<noteq> CHR ''1''"
  have "body ! 37 \<noteq> CHR ''1''" "body ! 38 \<noteq> CHR ''1''" "body ! 39 \<noteq> CHR ''1''" "body ! 40 \<noteq> CHR ''1''"
    using a [rule_format, of ArrowLeft] a [rule_format, of ArrowUp]
      a [rule_format, of ArrowRight] a [rule_format, of ArrowDown] by simp_all
  then show "Hero_update body h = Inr h" using assms by (intro Hero_update_none)
next
  assume a: "body ! 37 \<noteq> CHR ''1'' \<and> body ! 38 \<noteq> CHR ''1'' \<and> body ! 39 = CHR ''1'' \<and>
          body ! 40 \<noteq> CHR ''1'' \<and> 8 dvd pos_x h \<and> \<bar>pos_x h\<bar> \<le> 2 ^ 27"
  then have g: "8 dvd pos_x h" "\<bar>pos_x h\<bar> \<le> 2 ^ 27" by simp_all
  have "float32 (pos_x h + 8) = (if pos_x h = 2 ^ 27 then pos_x h else pos_x h + 8)"
    by (rule float32_up [OF g])
  then show "Hero_update body h =
              Inr (h\<lparr>pos_x := (if pos_x h = 2 ^ 27 then pos_x h else pos_x h + 8)\<rparr>)"
    unfolding Hero_update_axes [OF assms] using a by (cases h) simp
next
  assume a: "body ! 37 = CHR ''1'' \<and> body ! 39 = CHR ''1'' \<and>
          8 dvd pos_x h \<and> \<bar>pos_x h\<bar> \<le> 2 ^ 27"
  then have g: "8 dvd pos_x h" "\<bar>pos_x h\<bar> \<le> 2 ^ 27" by simp_all
  from axis_step(1) [OF g refl refl, of "body ! 39 = CHR ''1''" "body ! 37 = CHR ''1''"]
  show "\<exists>h'. Hero_update body h = Inr h' \<and>
               pos_x h' = (if pos_x h = - (2 ^ 27) then pos_x h + 8 else pos_x h)"
    unfolding Hero_update_axes [OF assms] using a by simp
next
  assume a: "body ! 38 = CHR ''1'' \<and> body ! 40 = CHR ''1'' \<and>
          8 dvd pos_y h \<and> \<bar>pos_y h\<bar> \<le> 2 ^ 27"
  then have g: "8 dvd pos_y h" "\<bar>pos_y h\<bar> \<le> 2 ^ 27" by simp_all
  from axis_step(1) [OF g refl refl, of "body ! 40 = CHR ''1''" "body ! 38 = CHR ''1''"]
  show "\<exists>h'. Hero_update body h = Inr h' \<and>
               pos_y h' = (if pos_y h = - (2 ^ 27) then pos_y h + 8 else pos_y h)"
    unfolding Hero_update_axes [OF assms] using a by simp
next
  assume a: "\<forall>b \<in> set bodies. 40 < length b"
  have g: "8 dvd pos_x Hero_new" "\<bar>pos_x Hero_new\<bar> \<le> 2 ^ 27"
    "8 dvd pos_y Hero_new" "\<bar>pos_y Hero_new\<bar> \<le> 2 ^ 27"
    by (simp_all add: Hero_new_eq)
  from Hero_updates_on_grid [OF a g]
  obtain h' where u: "Hero_updates bodies Hero_new = Inr h'"
    and g': "8 dvd pos_x h'" "\<bar>pos_x h'\<bar> \<le> 2 ^ 27" "8 dvd pos_y h'" "\<bar>pos_y h'\<bar> \<le> 2 ^ 27"
    and d: "\<bar>pos_x h' - 128\<bar> \<le> 8 * int (length bodies)"
      "\<bar>pos_y h' - 128\<bar> \<le> 8 * int (length bodies)"
    by (auto simp: Hero_new_eq)
  have "\<bar>pos_x h'\<bar> < 2 ^ 27 \<and> \<bar>pos_y h'\<bar> < 2 ^ 27" if "length bodies < 16777200"
  proof -
    have n: "int (length bodies) \<le> 16777199" using that by simp
    have "\<bar>pos_x h'\<bar> < 134217728" using d(1) n by linarith
    moreover have "\<bar>pos_y h'\<bar> < 134217728" using d(2) n by linarith
    ultimately show ?thesis by simp
  qed
  then show "\<exists>h'. Hero_updates bodies Hero_new = Inr h' \<and>
               8 dvd pos_x h' \<and> \<bar>pos_x h'\<bar> \<le> 2 ^ 27 \<and> 8 dvd pos_y h' \<and> \<bar>pos_y h'\<bar> \<le> 2 ^ 27 \<and>
               \<bar>pos_x h' - 128\<bar> \<le> 8 * int (length bodies) \<and>
               \<bar>pos_y h' - 128\<bar> \<le> 8 * int (length bodies) \<and>
               (length bodies < 16777200 \<longrightarrow> \<bar>pos_x h'\<bar> < 2 ^ 27 \<and> \<bar>pos_y h'\<bar> < 2 ^ 27)"
    using u g' d by blast
qed

text \<open>
  The theorem at the start position, for bodies as the page sends them, at
  \<open>x = 2 ^ 27\<close>, and for two bodies in a row.
\<close>

theorem Hero_update_displacement_witness:
  "Hero_update (keys []) Hero_new = Inr Hero_new \<and>
   Hero_update (keys [39]) Hero_new = Inr \<lparr>pos_x = 136, pos_y = 128\<rparr> \<and>
   Hero_update (keys [39]) \<lparr>pos_x = 134217728, pos_y = 128\<rparr>
     = Inr \<lparr>pos_x = 134217728, pos_y = 128\<rparr> \<and>
   (\<exists>h'. Hero_update (keys [37, 39]) Hero_new = Inr h' \<and> pos_x h' = 128) \<and>
   (\<exists>h'. Hero_update (keys [38, 40]) Hero_new = Inr h' \<and> pos_y h' = 128) \<and>
   (\<exists>h'. Hero_updates [keys [39], keys [39, 40]] Hero_new = Inr h' \<and>
      \<bar>pos_x h' - 128\<bar> \<le> 16 \<and> \<bar>pos_y h' - 128\<bar> \<le> 16 \<and>
      \<bar>pos_x h'\<bar> < 134217728 \<and> \<bar>pos_y h'\<bar> < 134217728)"
proof -
  have l: "40 < length (keys ps)" for ps by (simp add: length_keys)
  have 0: "\<forall>k. keys [] ! KeyCode_int k \<noteq> CHR ''1''"
  proof
    fix k show "keys [] ! KeyCode_int k \<noteq> CHR ''1''" by (cases k) (simp_all add: nth_keys)
  qed
  have a: "Hero_update (keys []) Hero_new = Inr Hero_new"
    using Hero_update_displacement [OF l, of "[]" Hero_new] 0 by blast
  have b: "Hero_update (keys [39]) Hero_new = Inr \<lparr>pos_x = 136, pos_y = 128\<rparr>"
    using Hero_update_displacement [OF l, of "[39]" Hero_new]
    by (simp add: nth_keys Hero_new_eq)
  have b': "Hero_update (keys [39]) \<lparr>pos_x = 134217728, pos_y = 128\<rparr>
     = Inr \<lparr>pos_x = 134217728, pos_y = 128\<rparr>"
    using Hero_update_displacement [OF l, of "[39]" "\<lparr>pos_x = 134217728, pos_y = 128\<rparr>"]
    by (simp add: nth_keys)
  have c: "\<exists>h'. Hero_update (keys [37, 39]) Hero_new = Inr h' \<and> pos_x h' = 128"
    using Hero_update_displacement [OF l, of "[37, 39]" Hero_new]
    by (simp add: nth_keys Hero_new_eq)
  have d: "\<exists>h'. Hero_update (keys [38, 40]) Hero_new = Inr h' \<and> pos_y h' = 128"
    using Hero_update_displacement [OF l, of "[38, 40]" Hero_new]
    by (simp add: nth_keys Hero_new_eq)
  have e: "\<exists>h'. Hero_updates [keys [39], keys [39, 40]] Hero_new = Inr h' \<and>
      \<bar>pos_x h' - 128\<bar> \<le> 16 \<and> \<bar>pos_y h' - 128\<bar> \<le> 16 \<and>
      \<bar>pos_x h'\<bar> < 134217728 \<and> \<bar>pos_y h'\<bar> < 134217728"
    using Hero_update_displacement [OF l, of "[]" Hero_new "[keys [39], keys [39, 40]]"]
    by (auto simp: length_keys)
  show ?thesis using a b b' c d e by blast
qed

text \<open>
  C7 as stated fails where binary32 runs out of precision. After 16777200 ticks with
  ArrowRight alone down the hero is at \<open>x = 2 ^ 27\<close>, where the next
  \<open>x + 8.0f\<close> is halfway between two binary32 values and rounds back to \<open>2 ^ 27\<close>:
  \<open>x\<close> no longer changes. After 16777232 ticks with ArrowLeft alone down the hero is
  at \<open>x = - 2 ^ 27\<close>, where ArrowLeft and ArrowRight together do not cancel: the
  subtraction rounds back and the addition then moves the hero.
\<close>

theorem Hero_update_far_right_counterexample:
  "Hero_updates (replicate 16777200 (keys [39])) Hero_new = Inr \<lparr>pos_x = 134217728, pos_y = 128\<rparr> \<and>
   Hero_update (keys [39]) \<lparr>pos_x = 134217728, pos_y = 128\<rparr>
     = Inr \<lparr>pos_x = 134217728, pos_y = 128\<rparr> \<and>
   Hero_updates (replicate 16777232 (keys [37])) Hero_new = Inr \<lparr>pos_x = - 134217728, pos_y = 128\<rparr> \<and>
   Hero_update (keys [37, 39]) \<lparr>pos_x = - 134217728, pos_y = 128\<rparr>
     = Inr \<lparr>pos_x = - 134217720, pos_y = 128\<rparr>"
proof (intro conjI)
  show "Hero_updates (replicate 16777200 (keys [39])) Hero_new = Inr \<lparr>pos_x = 134217728, pos_y = 128\<rparr>"
    using Hero_updates_right [of 128 16777200 128] by (simp add: Hero_new_eq)
  show "Hero_updates (replicate 16777232 (keys [37])) Hero_new = Inr \<lparr>pos_x = - 134217728, pos_y = 128\<rparr>"
    using Hero_updates_left [of 128 16777232 128] by (simp add: Hero_new_eq)
  have t: "float32 134217736 = 134217728" using float32_top by simp
  have l: "40 < length (keys ps)" for ps by (simp add: length_keys)
  show "Hero_update (keys [39]) \<lparr>pos_x = 134217728, pos_y = 128\<rparr>
     = Inr \<lparr>pos_x = 134217728, pos_y = 128\<rparr>"
    by (simp add: Hero_update_long [OF l] nth_keys t)
  have b: "float32 (- 134217736) = - 134217728" using float32_bottom by simp
  have e: "float32 (- 134217720) = - 134217720" by (rule float32_exact) simp_all
  show "Hero_update (keys [37, 39]) \<lparr>pos_x = - 134217728, pos_y = 128\<rparr>
     = Inr \<lparr>pos_x = - 134217720, pos_y = 128\<rparr>"
    by (simp add: Hero_update_long [OF l] nth_keys b e)
qed

section \<open>Decimal numerals and searching in strings\<close>

lemma lt10_cases: "n < 10 \<Longrightarrow> n \<in> {0, 1, 2, 3, 4, 5, 6, 7, 8, 9 :: nat}"
  by (simp only: insert_iff empty_iff) presburger

lemma digit_char_value: "n < 10 \<Longrightarrow> (of_char (digit_char n) :: nat) = 48 + n"
  using lt10_cases [of n] by (auto simp: digit_char_def)

lemma digit_char_digit: "n < 10 \<Longrightarrow> digit_char n \<in> set ''0123456789''"
  using lt10_cases [of n] by (auto simp: digit_char_def)

lemma digit_char_zero: "n < 10 \<Longrightarrow> digit_char n = CHR ''0'' \<longleftrightarrow> n = 0"
  using lt10_cases [of n] by (auto simp: digit_char_def)

lemma decimal_value_snoc: "decimal_value (s @ [c]) = 10 * decimal_value s + (of_char c - 48)"
  by (simp add: decimal_value_def)

lemma to_string_decimal:
  "decimal_value (to_string n) = n \<and> to_string n \<noteq> [] \<and>
   set (to_string n) \<subseteq> set ''0123456789'' \<and> (hd (to_string n) = CHR ''0'' \<longrightarrow> n = 0)"
proof (induction n rule: to_string.induct)
  case (1 n)
  show ?case
  proof (cases "n < 10")
    case True
    have "to_string n = [digit_char n]" using True by (subst to_string.simps) simp
    then show ?thesis
      using True digit_char_value [OF True] digit_char_digit [OF True] digit_char_zero [OF True]
      by (simp add: decimal_value_def)
  next
    case False
    have m: "n mod 10 < 10" by simp
    have s: "to_string n = to_string (n div 10) @ [digit_char (n mod 10)]"
      using False by (subst to_string.simps) simp
    from 1 False have ih: "decimal_value (to_string (n div 10)) = n div 10"
      "to_string (n div 10) \<noteq> []" "set (to_string (n div 10)) \<subseteq> set ''0123456789''"
      "hd (to_string (n div 10)) = CHR ''0'' \<longrightarrow> n div 10 = 0" by simp_all
    have "n div 10 \<noteq> 0" using False by simp
    then have "hd (to_string n) \<noteq> CHR ''0''" using ih(2,4) by (simp add: s)
    moreover have "decimal_value (to_string n) = n"
      unfolding s decimal_value_snoc ih(1) digit_char_value [OF m] by simp
    moreover have "set (to_string n) \<subseteq> set ''0123456789''"
      unfolding s using ih(3) digit_char_digit [OF m] by simp
    ultimately show ?thesis by (simp add: s)
  qed
qed

lemma to_string_0: "to_string 0 = ''0''"
  by (subst to_string.simps) (simp add: digit_char_def)

lemma find_first_0: "find_first s pat = Some 0 \<longleftrightarrow> prefix pat s"
  by (cases s) auto

lemma find_first_Some:
  "find_first s pat = Some p \<Longrightarrow>
     p \<le> length s \<and> prefix pat (drop p s) \<and> (\<forall>q<p. \<not> prefix pat (drop q s))"
proof (induction s arbitrary: p)
  case Nil
  then show ?case by (simp split: if_splits)
next
  case (Cons c s)
  show ?case
  proof (cases "prefix pat (c # s)")
    case True
    then show ?thesis using Cons.prems by simp
  next
    case False
    then obtain p' where p': "find_first s pat = Some p'" "p = Suc p'"
      using Cons.prems by auto
    from Cons.IH [OF p'(1)] have ih: "p' \<le> length s" "prefix pat (drop p' s)"
      "\<forall>q<p'. \<not> prefix pat (drop q s)" by simp_all
    have "\<not> prefix pat (drop q (c # s))" if "q < p" for q
    proof (cases q)
      case 0
      then show ?thesis using False by simp
    next
      case (Suc q')
      then show ?thesis using ih(3) that p'(2) by simp
    qed
    then show ?thesis using ih p'(2) by simp
  qed
qed

lemma find_first_None:
  "find_first s pat = None \<Longrightarrow> q \<le> length s \<Longrightarrow> \<not> prefix pat (drop q s)"
proof (induction s arbitrary: q)
  case Nil
  then show ?case by (simp split: if_splits)
next
  case (Cons c s)
  from Cons.prems(1) have np: "\<not> prefix pat (c # s)" and n: "find_first s pat = None"
    by (simp_all split: if_splits)
  show ?case
  proof (cases q)
    case 0
    then show ?thesis using np by simp
  next
    case (Suc q')
    then show ?thesis using Cons.IH [OF n, of q'] Cons.prems(2) by simp
  qed
qed

lemma str_find_0: "str_find s pat = 0 \<longleftrightarrow> prefix pat s"
proof -
  have "str_find s pat = 0 \<longleftrightarrow> find_first s pat = Some 0"
    by (simp add: str_find_def npos_def split: option.splits)
  then show ?thesis by (simp add: find_first_0)
qed

lemma getRequestLine_ok: "getRequestLine request = Inr (take (str_find request CRLF) request)"
  by (simp add: getRequestLine_def substr_def)

section \<open>clear and toString\<close>

lemma nth_concat_replicate:
  "j < n * length xs \<Longrightarrow> concat (replicate n xs) ! j = xs ! (j mod length xs)"
proof (induction n arbitrary: j)
  case 0
  then show ?case by simp
next
  case (Suc n)
  show ?case
  proof (cases "j < length xs")
    case True
    then show ?thesis by (simp add: nth_append)
  next
    case False
    then have "j - length xs < n * length xs" using Suc.prems by simp
    from Suc.IH [OF this] have "concat (replicate n xs) ! (j - length xs) = xs ! (j mod length xs)"
      using False by (simp add: le_mod_geq)
    then show ?thesis using False by (simp add: nth_append)
  qed
qed

lemma clear_data:
  assumes len: "length (data cv) = 262144"
  shows "\<exists>cv'. clear cv = Inr cv' \<and> data cv' = concat (replicate 65536 [0, 0, 0, 255])"
proof -
  from drawRect_nth [OF len, of 0 0 WIDTH HEIGHT "Color 0 0 0"]
  obtain cv' where d: "clear cv = Inr cv'" and l: "length (data cv') = 262144"
    and n: "\<And>j. data cv' ! j =
              (if \<exists>(xi, yi) \<in> set (drawRect_pixels 0 0 WIDTH HEIGHT). j div 4 = pixel_index xi yi
               then cbyte (Color 0 0 0) (j mod 4) else data cv ! j)"
    unfolding clear_def by blast
  have nov: "sint (0 + WIDTH) = sint (0::int32) + sint WIDTH"
    "sint (0 + HEIGHT) = sint (0::int32) + sint HEIGHT" by (simp_all add: WIDTH_def HEIGHT_def)
  have ex: "\<exists>(xi, yi) \<in> set (drawRect_pixels 0 0 WIDTH HEIGHT). j div 4 = pixel_index xi yi"
    if j: "j < 262144" for j
  proof -
    define p where "p = j div 4"
    have p: "p < 65536" using j by (simp add: p_def)
    have a: "p mod 256 < 256" by simp
    have b: "p div 256 < 256" using p by simp
    have "(word_of_nat (p mod 256), word_of_nat (p div 256)) \<in> set (drawRect_pixels 0 0 WIDTH HEIGHT)"
      unfolding mem_drawRect_pixels_int [OF nov] using a b
      by (simp add: sint_of_nat_small sint_WIDTH sint_HEIGHT)
    moreover have "p = pixel_index (word_of_nat (p mod 256) :: int32) (word_of_nat (p div 256))"
      unfolding pixel_index_of_nat [OF a b] by simp
    ultimately show ?thesis unfolding p_def by blast
  qed
  have "data cv' = concat (replicate 65536 [0, 0, 0, 255])"
  proof (rule nth_equalityI)
    show "length (data cv') = length (concat (replicate 65536 [0, 0, 0, 255 :: uint8]))"
      using l by (simp add: length_concat sum_list_replicate)
  next
    fix j assume "j < length (data cv')"
    then have j: "j < 262144" using l by simp
    have m: "j mod 4 < 4" by simp
    have "data cv' ! j = cbyte (Color 0 0 0) (j mod 4)" using n [of j] ex [OF j] by simp
    also have "\<dots> = [0, 0, 0, 255] ! (j mod 4)" by (simp add: cbyte_def Color_def)
    also have "\<dots> = concat (replicate 65536 [0, 0, 0, 255]) ! j"
      using nth_concat_replicate [of j 65536 "[0, 0, 0, 255 :: uint8]"] j by simp
    finally show "data cv' ! j = concat (replicate 65536 [0, 0, 0, 255]) ! j" .
  qed
  then show ?thesis using d by blast
qed

lemma toString_loop_eq:
  "i \<le> length d \<Longrightarrow>
     toString_loop i str d = str @ join_commas (map (\<lambda>b. to_string (unat b)) (drop i d))"
proof (induction i str d rule: toString_loop.induct)
  case (1 i str d)
  show ?case
  proof (cases "i < length d")
    case False
    then show ?thesis using "1.prems" by (subst toString_loop.simps) simp
  next
    case True
    let ?f = "\<lambda>b. to_string (unat b)"
    let ?sep = "if i \<noteq> length d - 1 then '','' else []"
    have dr: "drop i d = d ! i # drop (i + 1) d" using True by (simp add: Cons_nth_drop_Suc)
    have "toString_loop i str d = toString_loop (i + 1) (str @ ?f (d ! i) @ ?sep) d"
      using True by (subst toString_loop.simps) simp
    also have "\<dots> = (str @ ?f (d ! i) @ ?sep) @ join_commas (map ?f (drop (i + 1) d))"
      using True by (intro "1.IH") simp_all
    also have "\<dots> = str @ join_commas (map ?f (drop i d))"
    proof (cases "drop (i + 1) d")
      case Nil
      then have "i = length d - 1" using True by simp
      then show ?thesis unfolding dr using Nil by simp
    next
      case (Cons r rs)
      then have "i \<noteq> length d - 1" using True by auto
      then show ?thesis unfolding dr using Cons by simp
    qed
    finally show ?thesis .
  qed
qed

lemma toString_eq:
  "toString cv = ''['' @ join_commas (map (\<lambda>b. to_string (unat b)) (data cv)) @ '']''"
  by (simp add: toString_def toString_loop_eq)

lemma to_string_255: "to_string 255 = ''255''"
  by (simp add: to_string.simps digit_char_def)

text \<open>
  C6. On a canvas of the size the constructor gives it, \<open>clear\<close> succeeds and
  \<open>toString\<close> of the cleared canvas is \<open>[\<close>, then the 262144 values
  \<open>0\<close>, \<open>0\<close>, \<open>0\<close>, \<open>255\<close> of the 256 * 256 pixels in row-major order with a
  comma between each two values, then \<open>]\<close>.
\<close>

theorem clear_then_toString:
  assumes "length (data cv) = unat (WIDTH * HEIGHT * DEPTH)"
  shows "\<exists>cv'. clear cv = Inr cv' \<and>
           toString cv' =
             ''['' @ join_commas (concat (replicate (256 * 256) [''0'', ''0'', ''0'', ''255''])) @ '']'' \<and>
           length (concat (replicate (256 * 256) [''0'', ''0'', ''0'', ''255''])) = 262144"
proof -
  have "length (data cv) = 262144" using assms by (simp add: unat_store)
  from clear_data [OF this] obtain cv' where c: "clear cv = Inr cv'"
    and d: "data cv' = concat (replicate 65536 [0, 0, 0, 255])" by blast
  have "map (\<lambda>b. to_string (unat b)) (data cv')
      = concat (replicate 65536 (map (\<lambda>b. to_string (unat b)) [0, 0, 0, 255 :: uint8]))"
    unfolding d by (simp only: map_concat map_replicate)
  also have "\<dots> = concat (replicate (256 * 256) [''0'', ''0'', ''0'', ''255''])"
    by (simp add: to_string_0 to_string_255)
  finally have "toString cv' =
      ''['' @ join_commas (concat (replicate (256 * 256) [''0'', ''0'', ''0'', ''255''])) @ '']''"
    by (simp only: toString_eq)
  moreover have "length (concat (replicate (256 * 256) [''0'', ''0'', ''0'', ''255''])) = 262144"
    by (simp add: length_concat sum_list_replicate)
  ultimately show ?thesis using c by blast
qed

text \<open>The theorem at the canvas of the constructor.\<close>

theorem clear_then_toString_witness:
  "\<exists>cv'. clear Canvas_new = Inr cv' \<and>
     toString cv' =
       ''['' @ join_commas (concat (replicate (256 * 256) [''0'', ''0'', ''0'', ''255''])) @ '']''"
proof -
  have "length (data Canvas_new) = unat (WIDTH * HEIGHT * DEPTH)" by (simp add: Canvas_new_def)
  from clear_then_toString [OF this] show ?thesis by blast
qed

section \<open>One tick\<close>

lemma sint_of_int_small:
  "- 2147483648 \<le> k \<Longrightarrow> k < 2147483648 \<Longrightarrow> sint (word_of_int k :: int32) = k"
proof -
  assume k: "- 2147483648 \<le> k" "k < 2147483648"
  have "sint (word_of_int k :: int32) = signed_take_bit (LENGTH(32) - 1) k"
    by (rule sint_sbintrunc')
  also have "\<dots> = k" using k by (rule stb31)
  finally show ?thesis .
qed

lemma clear_pixel_at:
  assumes "data cv = concat (replicate 65536 [0, 0, 0, 255])" "px < 256" "py < 256"
  shows "pixel_at cv px py = Color 0 0 0"
proof -
  let ?p = "px + 256 * py"
  have p: "4 * ?p + 3 < 65536 * length [0, 0, 0, 255 :: uint8]" using assms(2,3) by simp
  then have b: "4 * ?p < 65536 * length [0, 0, 0, 255 :: uint8]"
    "4 * ?p + 1 < 65536 * length [0, 0, 0, 255 :: uint8]"
    "4 * ?p + 2 < 65536 * length [0, 0, 0, 255 :: uint8]" by simp_all
  have m: "(4 * ?p) mod length [0, 0, 0, 255 :: uint8] = 0"
    "(4 * ?p + 1) mod length [0, 0, 0, 255 :: uint8] = 1"
    "(4 * ?p + 2) mod length [0, 0, 0, 255 :: uint8] = 2"
    "(4 * ?p + 3) mod length [0, 0, 0, 255 :: uint8] = 3"
    using quad_mod [of ?p] by simp_all
  show ?thesis
    unfolding pixel_at_def Let_def assms(1)
      nth_concat_replicate [OF p] nth_concat_replicate [OF b(1)]
      nth_concat_replicate [OF b(2)] nth_concat_replicate [OF b(3)] m
    by (simp add: Color_def)
qed

text \<open>
  The rectangle \<open>Hero::draw\<close> asks for starts at \<open>x_ - 4.0f\<close> rounded to binary32.
  Up to \<open>2 ^ 24\<close> that is exact; beyond, it is at most 16 away from the exact
  difference, far outside the canvas as the exact square is.
\<close>

lemma float32_near:
  assumes lo: "2 ^ 24 \<le> \<bar>v\<bar>" and hi: "\<bar>v\<bar> < 2 ^ 28"
  shows "\<bar>float32 v - v\<bar> \<le> 16"
proof -
  define a where "a = \<bar>v\<bar>"
  define e where "e = nat (bitlen a - 24)"
  define q where "q = a div 2 ^ e"
  define r where "r = a mod 2 ^ e"
  define m where "m = (if 2 ^ (e - 1) < r \<or> (r = 2 ^ (e - 1) \<and> odd q) then q + 1 else q) * 2 ^ e"
  have "a < 2 ^ nat 28" using hi by (simp add: a_def)
  then have "bitlen a \<le> 28" by (simp add: bitlen_le_iff_power)
  then have "e \<le> 4" by (simp add: e_def)
  then have "(2::int) ^ e \<le> 2 ^ 4" by (intro power_increasing) simp_all
  then have p: "(2::int) ^ e \<le> 16" by simp
  have r: "0 \<le> r" "r < 2 ^ e" by (simp_all add: r_def)
  have a: "a = q * 2 ^ e + r" using div_mult_mod_eq [of a "2 ^ e"] by (simp add: q_def r_def)
  have "m - a = - r \<or> m - a = 2 ^ e - r" unfolding m_def a by (simp add: algebra_simps)
  then have d: "\<bar>m - a\<bar> \<le> 16" using r p by auto
  have na: "\<not> a < 2 ^ 24" using lo by (simp add: a_def)
  have f: "float32 v = sgn v * m"
    using na unfolding float32_def Let_def a_def [symmetric] e_def [symmetric]
      q_def [symmetric] r_def [symmetric] m_def by simp
  have v: "v = sgn v * a" by (simp add: a_def sgn_mult_abs)
  have "v \<noteq> 0" using lo by auto
  then have s: "\<bar>sgn v\<bar> = 1" by (simp add: abs_sgn_eq)
  have "float32 v - v = sgn v * (m - a)" using f v by (simp add: algebra_simps)
  then have "\<bar>float32 v - v\<bar> = \<bar>sgn v\<bar> * \<bar>m - a\<bar>" by (simp add: abs_mult)
  then show ?thesis using s d by simp
qed

lemma draw_axis:
  assumes "\<bar>X\<bar> \<le> 2 ^ 27"
  shows "- 1073741824 \<le> float32 (X - 4) \<and> float32 (X - 4) < 1073741824 \<and>
     (\<forall>p<256. (float32 (X - 4) \<le> int p \<and> int p < float32 (X - 4) + 8)
                \<longleftrightarrow> (X - 4 \<le> int p \<and> int p < X + 4))"
proof (cases "\<bar>X - 4\<bar> < 2 ^ 24")
  case True
  then have "float32 (X - 4) = X - 4" by (rule float32_small)
  then show ?thesis using True by auto
next
  case False
  then have lo: "2 ^ 24 \<le> \<bar>X - 4\<bar>" by simp
  have hi: "\<bar>X - 4\<bar> < 2 ^ 28" using assms by simp
  have n: "\<bar>float32 (X - 4) - (X - 4)\<bar> \<le> 16" by (rule float32_near [OF lo hi])
  have b: "- 1073741824 \<le> float32 (X - 4) \<and> float32 (X - 4) < 1073741824"
  proof -
    have X: "\<bar>X\<bar> \<le> 134217728" using assms by simp
    show ?thesis using n X by linarith
  qed
  have "(float32 (X - 4) \<le> int p \<and> int p < float32 (X - 4) + 8)
                \<longleftrightarrow> (X - 4 \<le> int p \<and> int p < X + 4)" if "p < 256" for p :: nat
  proof -
    have ip: "0 \<le> int p" "int p < 256" using that by simp_all
    from lo consider "16777216 \<le> X - 4" | "X - 4 \<le> - 16777216" by fastforce
    then show ?thesis
    proof cases
      case 1
      then have "\<not> float32 (X - 4) \<le> int p" "\<not> X - 4 \<le> int p" using n ip by linarith+
      then show ?thesis by simp
    next
      case 2
      then have "\<not> int p < float32 (X - 4) + 8" "\<not> int p < X + 4" using n ip by linarith+
      then show ?thesis by simp
    qed
  qed
  then show ?thesis using b by blast
qed

lemma Hero_draw_frame:
  assumes rng: "\<bar>pos_x h\<bar> \<le> 2 ^ 27" "\<bar>pos_y h\<bar> \<le> 2 ^ 27"
    and len: "length (data cv) = 262144"
  shows "\<exists>cv'. Hero_draw h cv = Inr cv' \<and> length (data cv') = 262144 \<and>
           (\<forall>px<256. \<forall>py<256. pixel_at cv' px py =
              (if pos_x h - 4 \<le> int px \<and> int px < pos_x h + 4 \<and>
                  pos_y h - 4 \<le> int py \<and> int py < pos_y h + 4
               then Color 255 0 0 else pixel_at cv px py))"
proof -
  define fx where "fx = float32 (pos_x h - 4)"
  define fy where "fy = float32 (pos_y h - 4)"
  from draw_axis [OF rng(1)] have bx: "- 1073741824 \<le> fx" "fx < 1073741824"
    and ex: "\<And>p. p < 256 \<Longrightarrow> (fx \<le> int p \<and> int p < fx + 8)
                \<longleftrightarrow> (pos_x h - 4 \<le> int p \<and> int p < pos_x h + 4)"
    unfolding fx_def by simp_all
  from draw_axis [OF rng(2)] have by': "- 1073741824 \<le> fy" "fy < 1073741824"
    and ey: "\<And>p. p < 256 \<Longrightarrow> (fy \<le> int p \<and> int p < fy + 8)
                \<longleftrightarrow> (pos_y h - 4 \<le> int p \<and> int p < pos_y h + 4)"
    unfolding fy_def by simp_all
  let ?x = "word_of_int fx :: int32"
  let ?y = "word_of_int fy :: int32"
  have e: "float32 8 = 8" by (intro float32_small) simp
  have ix: "float_to_int fx = Inr ?x" using bx by (simp add: float_to_int_def)
  have iy: "float_to_int fy = Inr ?y" using by' by (simp add: float_to_int_def)
  have i8: "float_to_int 8 = Inr 8" by (simp add: float_to_int_def)
  have hd: "Hero_draw h cv = drawRect ?x ?y 8 8 (Color 255 0 0) cv"
    unfolding Hero_draw_def Let_def fx_def [symmetric] fy_def [symmetric]
    by (simp add: e ix iy i8 and_then_def)
  have sx: "sint ?x = fx" using bx by (intro sint_of_int_small) simp_all
  have sy: "sint ?y = fy" using by' by (intro sint_of_int_small) simp_all
  have s8: "sint (8::int32) = 8" by simp
  have "sint (?x + 8) = signed_take_bit (LENGTH(32) - 1) (sint ?x + sint (8::int32))"
    by (rule sint_word_add)
  also have "\<dots> = sint ?x + sint (8::int32)"
    unfolding sx s8 using bx by (intro stb31) simp_all
  finally have nx: "sint (?x + 8) = sint ?x + sint (8::int32)" .
  have "sint (?y + 8) = signed_take_bit (LENGTH(32) - 1) (sint ?y + sint (8::int32))"
    by (rule sint_word_add)
  also have "\<dots> = sint ?y + sint (8::int32)"
    unfolding sy s8 using by' by (intro stb31) simp_all
  finally have ny: "sint (?y + 8) = sint ?y + sint (8::int32)" .
  from drawRect_pixel_at [OF len nx ny, of "Color 255 0 0"]
  obtain cv' where d: "drawRect ?x ?y 8 8 (Color 255 0 0) cv = Inr cv'"
    and l: "length (data cv') = 262144"
    and p: "\<And>px py. px < 256 \<Longrightarrow> py < 256 \<Longrightarrow> pixel_at cv' px py =
              (if sint ?x \<le> int px \<and> int px < sint ?x + sint (8::int32) \<and>
                  sint ?y \<le> int py \<and> int py < sint ?y + sint (8::int32)
               then Color 255 0 0 else pixel_at cv px py)"
    by blast
  have "pixel_at cv' px py =
              (if pos_x h - 4 \<le> int px \<and> int px < pos_x h + 4 \<and>
                  pos_y h - 4 \<le> int py \<and> int py < pos_y h + 4
               then Color 255 0 0 else pixel_at cv px py)" if "px < 256" "py < 256" for px py
  proof -
    have "(fx \<le> int px \<and> int px < fx + 8 \<and> fy \<le> int py \<and> int py < fy + 8) \<longleftrightarrow>
        (pos_x h - 4 \<le> int px \<and> int px < pos_x h + 4 \<and>
         pos_y h - 4 \<le> int py \<and> int py < pos_y h + 4)"
      using ex [OF that(1)] ey [OF that(2)] by blast
    then show ?thesis unfolding p [OF that] sx sy s8 by (simp only:)
  qed
  then show ?thesis using d l unfolding hd by blast
qed

text \<open>One tick: the frame is the cleared canvas with the square of the hero on it.\<close>

lemma update_frame:
  assumes len: "length (data (canvas w)) = 262144"
    and upd: "Hero_update body (hero w) = Inr h"
    and rng: "\<bar>pos_x h\<bar> \<le> 2 ^ 27" "\<bar>pos_y h\<bar> \<le> 2 ^ 27"
  shows "\<exists>cv'. update body w = Inr (toString cv', \<lparr>canvas = cv', hero = h\<rparr>) \<and>
           length (data cv') = 262144 \<and>
           (\<forall>px<256. \<forall>py<256. pixel_at cv' px py =
              (if pos_x h - 4 \<le> int px \<and> int px < pos_x h + 4 \<and>
                  pos_y h - 4 \<le> int py \<and> int py < pos_y h + 4
               then Color 255 0 0 else Color 0 0 0))"
proof -
  from clear_data [OF len] obtain cv0 where c: "clear (canvas w) = Inr cv0"
    and d0: "data cv0 = concat (replicate 65536 [0, 0, 0, 255])" by blast
  have l0: "length (data cv0) = 262144" unfolding d0 by (simp add: length_concat sum_list_replicate)
  from Hero_draw_frame [OF rng l0]
  obtain cv' where hd: "Hero_draw h cv0 = Inr cv'"
    and l: "length (data cv') = 262144"
    and p: "\<And>px py. px < 256 \<Longrightarrow> py < 256 \<Longrightarrow> pixel_at cv' px py =
              (if pos_x h - 4 \<le> int px \<and> int px < pos_x h + 4 \<and>
                  pos_y h - 4 \<le> int py \<and> int py < pos_y h + 4
               then Color 255 0 0 else pixel_at cv0 px py)"
    by blast
  have u: "update body w = Inr (toString cv', \<lparr>canvas = cv', hero = h\<rparr>)"
    unfolding update_def upd c and_then_def by (simp add: hd)
  have "pixel_at cv' px py =
              (if pos_x h - 4 \<le> int px \<and> int px < pos_x h + 4 \<and>
                  pos_y h - 4 \<le> int py \<and> int py < pos_y h + 4
               then Color 255 0 0 else Color 0 0 0)" if "px < 256" "py < 256" for px py
    unfolding p [OF that] clear_pixel_at [OF d0 that] by simp
  then show ?thesis using u l by blast
qed

lemma World_new_canvas: "length (data (canvas World_new)) = 262144"
  by (simp add: World_new_def Canvas_new_def unat_store)

lemma World_new_hero: "hero World_new = Hero_new"
  by (simp add: World_new_def)

lemma Hero_update_first:
  assumes l: "40 < length body"
  shows "Hero_update body Hero_new = Inr
     \<lparr>pos_x = 128 + ((if body ! 39 = CHR ''1'' then 8 else 0) - (if body ! 37 = CHR ''1'' then 8 else 0)),
      pos_y = 128 + ((if body ! 40 = CHR ''1'' then 8 else 0) - (if body ! 38 = CHR ''1'' then 8 else 0))\<rparr>"
proof -
  have f: "float32 120 = 120" "float32 128 = 128" "float32 136 = 136"
    by (simp_all add: float32_small)
  show ?thesis
    unfolding Hero_update_axes [OF l] by (simp add: Hero_new_eq f)
qed

text \<open>
  C10, as the code has it. At the start the hero is at \<open>x = 128\<close>, \<open>y = 128\<close>.
  \<open>update\<close> moves the hero first and draws it afterwards, so the frame of the first
  POST, whose body covers the arrow codes, shows the square of 8 by 8 pixels centred
  at \<open>(128 + dx, 128 + dy)\<close>, all other pixels black: \<open>dx\<close> is 8 if ArrowRight is
  down in that body, less 8 if ArrowLeft is down, and \<open>dy\<close> is 8 if ArrowDown is
  down, less 8 if ArrowUp is down. When on each axis both keys or neither key is
  down, that is the square centred at (128, 128), the pixels with both coordinates
  from 124 to 131, and the hero is where it started.
\<close>

theorem first_frame:
  "Hero_new = \<lparr>pos_x = 128, pos_y = 128\<rparr> \<and>
   (let dx = (if body ! 39 = CHR ''1'' then 8 else 0) - (if body ! 37 = CHR ''1'' then 8 else 0);
        dy = (if body ! 40 = CHR ''1'' then 8 else 0) - (if body ! 38 = CHR ''1'' then 8 else 0)
    in 40 < length body \<longrightarrow>
      (\<exists>cv'. update body World_new
                = Inr (toString cv', \<lparr>canvas = cv', hero = \<lparr>pos_x = 128 + dx, pos_y = 128 + dy\<rparr>\<rparr>) \<and>
         (\<forall>px<256. \<forall>py<256. pixel_at cv' px py =
            (if 124 + dx \<le> int px \<and> int px < 132 + dx \<and> 124 + dy \<le> int py \<and> int py < 132 + dy
             then Color 255 0 0 else Color 0 0 0)))) \<and>
   (40 < length body \<and> (body ! 37 = CHR ''1'' \<longleftrightarrow> body ! 39 = CHR ''1'') \<and>
    (body ! 38 = CHR ''1'' \<longleftrightarrow> body ! 40 = CHR ''1'') \<longrightarrow>
      (\<exists>cv'. update body World_new = Inr (toString cv', \<lparr>canvas = cv', hero = Hero_new\<rparr>) \<and>
         (\<forall>px<256. \<forall>py<256. pixel_at cv' px py =
            (if 124 \<le> px \<and> px < 132 \<and> 124 \<le> py \<and> py < 132
             then Color 255 0 0 else Color 0 0 0))))"
proof -
  define dx :: int where
    "dx = (if body ! 39 = CHR ''1'' then 8 else 0) - (if body ! 37 = CHR ''1'' then 8 else 0)"
  define dy :: int where
    "dy = (if body ! 40 = CHR ''1'' then 8 else 0) - (if body ! 38 = CHR ''1'' then 8 else 0)"
  let ?h = "\<lparr>pos_x = 128 + dx, pos_y = 128 + dy\<rparr>"
  have frame: "\<exists>cv'. update body World_new = Inr (toString cv', \<lparr>canvas = cv', hero = ?h\<rparr>) \<and>
         (\<forall>px<256. \<forall>py<256. pixel_at cv' px py =
            (if 124 + dx \<le> int px \<and> int px < 132 + dx \<and> 124 + dy \<le> int py \<and> int py < 132 + dy
             then Color 255 0 0 else Color 0 0 0))" if l: "40 < length body"
  proof -
    have u: "Hero_update body (hero World_new) = Inr ?h"
      unfolding World_new_hero Hero_update_first [OF l] dx_def dy_def ..
    have r: "\<bar>pos_x ?h\<bar> \<le> 2 ^ 27" "\<bar>pos_y ?h\<bar> \<le> 2 ^ 27" by (simp_all add: dx_def dy_def)
    from update_frame [OF World_new_canvas u r]
    obtain cv' where a: "update body World_new = Inr (toString cv', \<lparr>canvas = cv', hero = ?h\<rparr>)"
      and p: "\<And>px py. px < 256 \<Longrightarrow> py < 256 \<Longrightarrow> pixel_at cv' px py =
              (if pos_x ?h - 4 \<le> int px \<and> int px < pos_x ?h + 4 \<and>
                  pos_y ?h - 4 \<le> int py \<and> int py < pos_y ?h + 4
               then Color 255 0 0 else Color 0 0 0)"
      by blast
    have "pixel_at cv' px py =
            (if 124 + dx \<le> int px \<and> int px < 132 + dx \<and> 124 + dy \<le> int py \<and> int py < 132 + dy
             then Color 255 0 0 else Color 0 0 0)" if "px < 256" "py < 256" for px py
      unfolding p [OF that] by simp
    then show ?thesis using a by blast
  qed
  have centre: "\<exists>cv'. update body World_new = Inr (toString cv', \<lparr>canvas = cv', hero = Hero_new\<rparr>) \<and>
         (\<forall>px<256. \<forall>py<256. pixel_at cv' px py =
            (if 124 \<le> px \<and> px < 132 \<and> 124 \<le> py \<and> py < 132
             then Color 255 0 0 else Color 0 0 0))"
    if c: "40 < length body \<and> (body ! 37 = CHR ''1'' \<longleftrightarrow> body ! 39 = CHR ''1'') \<and>
      (body ! 38 = CHR ''1'' \<longleftrightarrow> body ! 40 = CHR ''1'')"
  proof -
    have z: "dx = 0" "dy = 0" using c by (simp_all add: dx_def dy_def)
    from c frame obtain cv' where
      a: "update body World_new = Inr (toString cv', \<lparr>canvas = cv', hero = ?h\<rparr>)"
      and p: "\<And>px py. px < 256 \<Longrightarrow> py < 256 \<Longrightarrow> pixel_at cv' px py =
            (if 124 + dx \<le> int px \<and> int px < 132 + dx \<and> 124 + dy \<le> int py \<and> int py < 132 + dy
             then Color 255 0 0 else Color 0 0 0)"
      by blast
    have "pixel_at cv' px py =
            (if 124 \<le> px \<and> px < 132 \<and> 124 \<le> py \<and> py < 132
             then Color 255 0 0 else Color 0 0 0)" if "px < 256" "py < 256" for px py
      unfolding p [OF that] z by simp
    then show ?thesis using a by (auto simp: z Hero_new_eq)
  qed
  show ?thesis
    unfolding Let_def dx_def [symmetric] dy_def [symmetric]
    using frame centre Hero_new_eq by blast
qed

text \<open>
  The theorem at bodies as the page sends them: no key down, ArrowLeft and
  ArrowRight down, and ArrowRight and ArrowUp down.
\<close>

theorem first_frame_witness:
  "(\<exists>cv'. update (keys []) World_new = Inr (toString cv', \<lparr>canvas = cv', hero = Hero_new\<rparr>) \<and>
     pixel_at cv' 124 124 = Color 255 0 0 \<and> pixel_at cv' 131 131 = Color 255 0 0 \<and>
     pixel_at cv' 123 124 = Color 0 0 0 \<and> pixel_at cv' 132 131 = Color 0 0 0) \<and>
   (\<exists>cv'. update (keys [37, 39]) World_new = Inr (toString cv', \<lparr>canvas = cv', hero = Hero_new\<rparr>) \<and>
     pixel_at cv' 124 124 = Color 255 0 0 \<and> pixel_at cv' 132 131 = Color 0 0 0) \<and>
   (\<exists>cv'. update (keys [38, 39]) World_new
       = Inr (toString cv', \<lparr>canvas = cv', hero = \<lparr>pos_x = 136, pos_y = 120\<rparr>\<rparr>) \<and>
     pixel_at cv' 132 116 = Color 255 0 0 \<and> pixel_at cv' 139 123 = Color 255 0 0 \<and>
     pixel_at cv' 131 116 = Color 0 0 0 \<and> pixel_at cv' 139 124 = Color 0 0 0)"
proof -
  have c0: "40 < length (keys []) \<and> (keys [] ! 37 = CHR ''1'' \<longleftrightarrow> keys [] ! 39 = CHR ''1'') \<and>
      (keys [] ! 38 = CHR ''1'' \<longleftrightarrow> keys [] ! 40 = CHR ''1'')"
    by (simp add: length_keys nth_keys)
  with first_frame [of "keys []"]
  obtain cv' where a: "update (keys []) World_new = Inr (toString cv', \<lparr>canvas = cv', hero = Hero_new\<rparr>)"
    and p: "\<forall>px<256. \<forall>py<256. pixel_at cv' px py =
            (if 124 \<le> px \<and> px < 132 \<and> 124 \<le> py \<and> py < 132
             then Color 255 0 0 else Color 0 0 0)"
    by blast
  have "pixel_at cv' 124 124 = Color 255 0 0" "pixel_at cv' 131 131 = Color 255 0 0"
    "pixel_at cv' 123 124 = Color 0 0 0" "pixel_at cv' 132 131 = Color 0 0 0"
    using p by simp_all
  then have A: "\<exists>cv'. update (keys []) World_new = Inr (toString cv', \<lparr>canvas = cv', hero = Hero_new\<rparr>) \<and>
     pixel_at cv' 124 124 = Color 255 0 0 \<and> pixel_at cv' 131 131 = Color 255 0 0 \<and>
     pixel_at cv' 123 124 = Color 0 0 0 \<and> pixel_at cv' 132 131 = Color 0 0 0"
    using a by blast
  have c1: "40 < length (keys [37, 39]) \<and>
      (keys [37, 39] ! 37 = CHR ''1'' \<longleftrightarrow> keys [37, 39] ! 39 = CHR ''1'') \<and>
      (keys [37, 39] ! 38 = CHR ''1'' \<longleftrightarrow> keys [37, 39] ! 40 = CHR ''1'')"
    by (simp add: length_keys nth_keys)
  with first_frame [of "keys [37, 39]"]
  obtain cv1 where a1: "update (keys [37, 39]) World_new
        = Inr (toString cv1, \<lparr>canvas = cv1, hero = Hero_new\<rparr>)"
    and p1: "\<forall>px<256. \<forall>py<256. pixel_at cv1 px py =
            (if 124 \<le> px \<and> px < 132 \<and> 124 \<le> py \<and> py < 132
             then Color 255 0 0 else Color 0 0 0)"
    by blast
  have "pixel_at cv1 124 124 = Color 255 0 0" "pixel_at cv1 132 131 = Color 0 0 0"
    using p1 by simp_all
  then have B: "\<exists>cv'. update (keys [37, 39]) World_new
        = Inr (toString cv', \<lparr>canvas = cv', hero = Hero_new\<rparr>) \<and>
     pixel_at cv' 124 124 = Color 255 0 0 \<and> pixel_at cv' 132 131 = Color 0 0 0"
    using a1 by blast
  from first_frame [of "keys [38, 39]"]
  obtain cv2 where a2: "update (keys [38, 39]) World_new
        = Inr (toString cv2, \<lparr>canvas = cv2, hero = \<lparr>pos_x = 136, pos_y = 120\<rparr>\<rparr>)"
    and p2: "\<forall>px<256. \<forall>py<256. pixel_at cv2 px py =
            (if 132 \<le> int px \<and> int px < 140 \<and> 116 \<le> int py \<and> int py < 124
             then Color 255 0 0 else Color 0 0 0)"
    by (auto simp: length_keys nth_keys Let_def)
  have "pixel_at cv2 132 116 = Color 255 0 0" "pixel_at cv2 139 123 = Color 255 0 0"
    "pixel_at cv2 131 116 = Color 0 0 0" "pixel_at cv2 139 124 = Color 0 0 0"
    using p2 by simp_all
  then have C: "\<exists>cv'. update (keys [38, 39]) World_new
       = Inr (toString cv', \<lparr>canvas = cv', hero = \<lparr>pos_x = 136, pos_y = 120\<rparr>\<rparr>) \<and>
     pixel_at cv' 132 116 = Color 255 0 0 \<and> pixel_at cv' 139 123 = Color 255 0 0 \<and>
     pixel_at cv' 131 116 = Color 0 0 0 \<and> pixel_at cv' 139 124 = Color 0 0 0"
    using a2 by blast
  show ?thesis using A B C by blast
qed

text \<open>
  C10 as stated fails when the first POST has an arrow key down and the opposite
  key up: with ArrowRight alone down the hero is moved before it is drawn, and the
  first frame shows the square centred at (136, 128): the pixel (124, 128) is
  black and the pixel (139, 128) red.
\<close>

theorem first_frame_moved_counterexample:
  "(case update (keys [39]) World_new of
      Inl e \<Rightarrow> False
    | Inr (frame, w') \<Rightarrow>
        hero w' = \<lparr>pos_x = 136, pos_y = 128\<rparr> \<and>
        pixel_at (canvas w') 124 128 = Color 0 0 0 \<and>
        pixel_at (canvas w') 139 128 = Color 255 0 0)"
proof -
  let ?h = "\<lparr>pos_x = 136, pos_y = 128\<rparr>"
  have "Hero_update (keys [39]) Hero_new = Inr (Hero_new\<lparr>pos_x := pos_x Hero_new + 8\<rparr>)"
    by (rule Hero_update_right) (simp_all add: length_keys nth_keys Hero_new_eq)
  then have u: "Hero_update (keys [39]) (hero World_new) = Inr ?h"
    by (simp add: World_new_hero Hero_new_eq)
  have r: "\<bar>pos_x ?h\<bar> \<le> 2 ^ 27" "\<bar>pos_y ?h\<bar> \<le> 2 ^ 27" by simp_all
  from update_frame [OF World_new_canvas u r]
  obtain cv' where a: "update (keys [39]) World_new = Inr (toString cv', \<lparr>canvas = cv', hero = ?h\<rparr>)"
    and p: "\<And>px py. px < 256 \<Longrightarrow> py < 256 \<Longrightarrow> pixel_at cv' px py =
              (if pos_x ?h - 4 \<le> int px \<and> int px < pos_x ?h + 4 \<and>
                  pos_y ?h - 4 \<le> int py \<and> int py < pos_y ?h + 4
               then Color 255 0 0 else Color 0 0 0)"
    by blast
  have "pixel_at cv' 124 128 = Color 0 0 0" using p [of 124 128] by simp
  moreover have "pixel_at cv' 139 128 = Color 255 0 0" using p [of 139 128] by simp
  ultimately show ?thesis by (simp add: a)
qed

section \<open>The request line and the request body\<close>

lemma CRLF_eq: "CRLF = [CHR 0x0D, CHR 0x0A]"
  by (simp add: CRLF_def CR_def LF_def)

lemma getRequestBody_not_POST:
  assumes "getRequestLine request = Inr line" "\<not> prefix ''POST'' line"
  shows "getRequestBody request = Inr []"
  using assms by (simp add: getRequestBody_def and_then_def str_find_0)

lemma getRequestBody_separator:
  assumes len: "length request < 2 ^ 64"
    and line: "getRequestLine request = Inr line" "prefix ''POST'' line"
    and sep: "find_first request (CRLF @ CRLF) = Some p"
  shows "getRequestBody request = Inr (drop (p + 4) request)"
proof -
  from find_first_Some [OF sep] have "prefix (CRLF @ CRLF) (drop p request)" by simp
  then have "length (CRLF @ CRLF) \<le> length (drop p request)" by (rule prefix_length_le)
  then have p4: "p + 4 \<le> length request" by (simp add: CRLF_def)
  then have m: "(p + 4) mod 2 ^ 64 = p + 4" using len by simp
  have f: "str_find request (CRLF @ CRLF) = p" using sep by (simp add: str_find_def)
  have "substr request ((str_find request (CRLF @ CRLF) + 4) mod 2 ^ 64) npos
      = Inr (take npos (drop (p + 4) request))"
    unfolding f m using p4 by (simp add: substr_def)
  moreover have "length (drop (p + 4) request) \<le> npos" using len by (simp add: npos_def)
  ultimately show ?thesis using line
    by (simp add: getRequestBody_def and_then_def str_find_0)
qed

lemma getRequestBody_no_separator:
  assumes line: "getRequestLine request = Inr line" "prefix ''POST'' line"
    and sep: "find_first request (CRLF @ CRLF) = None"
    and len: "length request < 2 ^ 64"
  shows "getRequestBody request = Inr (drop 3 request)"
proof -
  have "line = take (str_find request CRLF) request" using line(1) by (simp add: getRequestLine_ok)
  then have "length line \<le> length request" by simp
  moreover have "length ''POST'' \<le> length line" using line(2) by (rule prefix_length_le)
  ultimately have l: "3 \<le> length request" by simp
  have f: "str_find request (CRLF @ CRLF) = npos" using sep by (simp add: str_find_def)
  have m: "(npos + 4) mod 2 ^ 64 = 3" by (simp add: npos_def)
  have "substr request ((str_find request (CRLF @ CRLF) + 4) mod 2 ^ 64) npos
      = Inr (take npos (drop 3 request))"
    unfolding f m using l by (simp add: substr_def)
  moreover have "length (drop 3 request) \<le> npos" using len by (simp add: npos_def)
  ultimately show ?thesis using line
    by (simp add: getRequestBody_def and_then_def str_find_0)
qed

text \<open>
  C8 fails on a request whose line begins with POST and that has no blank line yet
  (the headers have arrived, the body has not): \<open>find\<close> returns \<open>npos\<close>,
  \<open>npos + 4\<close> wraps around to 3, and the body extracted is the request from its
  fourth byte on, not an empty body and not the bytes after a separator.
\<close>

theorem getRequestBody_missing_separator:
  "getRequestBody (''POST / HTTP/1.1'' @ CRLF @ ''Host: x'' @ CRLF)
     = Inr (''T / HTTP/1.1'' @ CRLF @ ''Host: x'' @ CRLF)"
  by (simp add: getRequestBody_def getRequestLine_def substr_def and_then_def str_find_def
      npos_def CRLF_def CR_def LF_def)

lemma line_GET: "take (str_find (''GET / HTTP/1.1'' @ CRLF @ CRLF) CRLF) (''GET / HTTP/1.1'' @ CRLF @ CRLF)
    = ''GET / HTTP/1.1''"
  by (simp add: str_find_def CRLF_def CR_def LF_def)


lemma line_POST: "take (str_find (''POST / HTTP/1.1'' @ CRLF @ CRLF @ b) CRLF) (''POST / HTTP/1.1'' @ CRLF @ CRLF @ b)
    = ''POST / HTTP/1.1''"
  by (simp add: str_find_def CRLF_def CR_def LF_def)

lemma body_POST: "length b < 2 ^ 32 \<Longrightarrow> getRequestBody (''POST / HTTP/1.1'' @ CRLF @ CRLF @ b) = Inr b"
proof -
  assume l: "length b < 2 ^ 32"
  let ?r = "''POST / HTTP/1.1'' @ CRLF @ CRLF @ b"
  have 1: "length ?r < 2 ^ 64" using l by (simp add: CRLF_def)
  have 2: "getRequestLine ?r = Inr ''POST / HTTP/1.1''"
    unfolding getRequestLine_ok line_POST ..
  have 3: "find_first ?r (CRLF @ CRLF) = Some 15"
    by (simp add: CRLF_def CR_def LF_def)
  have "getRequestBody ?r = Inr (drop (15 + 4) ?r)"
    by (rule getRequestBody_separator [OF 1 2 _ 3]) simp
  then show ?thesis by (simp add: CRLF_def)
qed

lemma length_baseHTML: "length baseHTML = 577"
  by (simp add: baseHTML_def)

lemma to_string_577: "to_string 577 = ''577''"
  by (simp add: to_string.simps digit_char_def)

section \<open>Responses\<close>

text \<open>
  C5. Every response that is produced is exactly the status line
  \<open>HTTP/1.1 200 OK\<close>, the header \<open>Content-Type: text/html\<close>, the header
  \<open>Content-Length\<close> and an empty line, each ended by CR LF, and then the body. The
  value of \<open>Content-Length\<close> is the decimal numeral of the length of the body:
  digits only, no leading zero, and read back as a number it is that length. There
  is no other status and no other header. When no response body is produced (the
  failure of the POST path on a short key-state body), no response is produced
  either.
\<close>

theorem createResponse_framing:
  "(createResponseBody request w = Inr (body, w') \<longrightarrow>
      createResponse request w =
        Inr (''HTTP/1.1 200 OK'' @ [CHR 0x0D, CHR 0x0A] @
             ''Content-Type: text/html'' @ [CHR 0x0D, CHR 0x0A] @
             ''Content-Length: '' @ to_string (length body) @ [CHR 0x0D, CHR 0x0A] @
             [CHR 0x0D, CHR 0x0A] @ body, w') \<and>
      decimal_value (to_string (length body)) = length body \<and>
      to_string (length body) \<noteq> [] \<and>
      set (to_string (length body)) \<subseteq> set ''0123456789'' \<and>
      (hd (to_string (length body)) = CHR ''0'' \<longrightarrow> length body = 0)) \<and>
   (createResponseBody request w = Inl e \<longrightarrow> createResponse request w = Inl e)"
  using to_string_decimal [of "length body"]
  by (simp add: createResponse_def createResponseHeader_def and_then_def CRLF_eq)

text \<open>The theorem at a GET request and at a POST request with an empty body.\<close>

theorem createResponse_framing_witness:
  "createResponse (''GET / HTTP/1.1'' @ CRLF @ CRLF) World_new =
     Inr (''HTTP/1.1 200 OK'' @ [CHR 0x0D, CHR 0x0A] @
          ''Content-Type: text/html'' @ [CHR 0x0D, CHR 0x0A] @
          ''Content-Length: 577'' @ [CHR 0x0D, CHR 0x0A] @ [CHR 0x0D, CHR 0x0A] @ baseHTML,
          World_new) \<and>
   decimal_value ''577'' = 577 \<and>
   createResponse (''POST / HTTP/1.1'' @ CRLF @ CRLF) World_new = Inl OutOfBounds"
proof -
  have g: "createResponseBody (''GET / HTTP/1.1'' @ CRLF @ CRLF) World_new = Inr (baseHTML, World_new)"
    unfolding createResponseBody_def getRequestLine_ok line_GET
    by (simp add: and_then_def str_find_0)
  have "getRequestBody (''POST / HTTP/1.1'' @ CRLF @ CRLF @ []) = Inr []"
    by (rule body_POST) simp
  then have pb: "getRequestBody (''POST / HTTP/1.1'' @ CRLF @ CRLF) = Inr []" by simp
  have pl: "take (str_find (''POST / HTTP/1.1'' @ CRLF @ CRLF) CRLF)
      (''POST / HTTP/1.1'' @ CRLF @ CRLF) = ''POST / HTTP/1.1''"
    using line_POST [of "[]"] by simp
  have p: "createResponseBody (''POST / HTTP/1.1'' @ CRLF @ CRLF) World_new = Inl OutOfBounds"
    unfolding createResponseBody_def getRequestLine_ok pl pb
    by (simp add: and_then_def str_find_0 update_def Hero_update_short)
  have a: "createResponse (''GET / HTTP/1.1'' @ CRLF @ CRLF) World_new =
     Inr (''HTTP/1.1 200 OK'' @ [CHR 0x0D, CHR 0x0A] @
          ''Content-Type: text/html'' @ [CHR 0x0D, CHR 0x0A] @
          ''Content-Length: 577'' @ [CHR 0x0D, CHR 0x0A] @ [CHR 0x0D, CHR 0x0A] @ baseHTML,
          World_new) \<and> decimal_value ''577'' = 577"
    using createResponse_framing [of "''GET / HTTP/1.1'' @ CRLF @ CRLF" World_new baseHTML World_new] g
    by (simp add: length_baseHTML to_string_577)
  have b: "createResponse (''POST / HTTP/1.1'' @ CRLF @ CRLF) World_new = Inl OutOfBounds"
    using createResponse_framing [of "''POST / HTTP/1.1'' @ CRLF @ CRLF" World_new _ _ OutOfBounds] p
    by simp
  show ?thesis using a b by blast
qed

section \<open>Dispatch\<close>









section \<open>Sessions\<close>

lemma vector_resize_minus1: "vector_resize buf (to_size_t (- 1)) = Inl LengthError"
  by (simp add: vector_resize_def to_size_t_def vector_max_size_def)

lemma vector_resize_small:
  "n \<le> 4096 \<Longrightarrow> vector_resize buf n = Inr (take n buf @ replicate (n - length buf) (CHR 0x00))"
  by (simp add: vector_resize_def vector_max_size_def)

lemma receiveSendLoop_read_error:
  "readSize ev = - 1 \<Longrightarrow> receiveSendLoop t (ev # evs) w = ([], Failed LengthError, w)"
  by (simp add: receiveSendLoop.simps vector_resize_minus1 Let_def)

lemma receiveSendLoop_shutdown:
  "readSize ev = 0 \<Longrightarrow> receiveSendLoop t (ev # evs) w = ([], PeerShutdown, w)"
  by (simp add: receiveSendLoop.simps vector_resize_small to_size_t_def Let_def)

lemma runConnectionLoop_shutdown:
  assumes "readSize ev = 0"
  shows "runConnectionLoop (Accepted now (ev # evs) # as) w =
     (case runConnectionLoop as w of
        (sessions, pe, w') \<Rightarrow> (\<lparr>sends = [], ended = PeerShutdown, closed = True\<rparr> # sessions, pe, w'))"
  using assms by (simp add: runReceiveSendLoop_def receiveSendLoop_shutdown)

text \<open>
  C3 fails when \<open>recv\<close> returns \<open>-1\<close>. The loop calls \<open>buf.resize(readSize)\<close>
  before it looks at \<open>readSize\<close>: \<open>-1\<close> converted to \<open>size_t\<close> is \<open>2 ^ 64 - 1\<close>,
  more than a vector can hold, and \<open>resize\<close> throws \<open>std::length_error\<close>, which
  nothing catches. The \<open>break\<close> for a read error is never reached, the connection
  is not closed and the process ends: no later connection is served. (When \<open>recv\<close>
  returns 0 the session does end alone, see \<open>runConnectionLoop_shutdown\<close>.)
\<close>

theorem runConnectionLoop_read_error:
  "runConnectionLoop
     (Accepted now (\<lparr>readSize = - 1, bytes = b, clock = c, late = l\<rparr> # evs) # as) w
   = ([\<lparr>sends = [], ended = Failed LengthError, closed = False\<rparr>], Terminated LengthError, w)"
  by (simp add: runReceiveSendLoop_def receiveSendLoop_read_error)

section \<open>Pacing\<close>

lemma receiveSendLoop_step:
  assumes "receiveSendLoop t (ev # evs) w = (s # ss, how, w')"
  shows "\<exists>w1. receiveSendLoop (t + ms100) evs w1 = (ss, how, w') \<and> deadline s = t \<and>
           sent_at s = sleep_until t (clock ev) (late ev)"
  using assms
  by (auto simp: receiveSendLoop.simps Let_def split: sum.splits if_splits prod.splits)

lemma receiveSendLoop_deadlines:
  assumes "receiveSendLoop t evs w = (ss, how, w')" "n < length ss"
  shows "deadline (ss ! n) = t + int n * ms100 \<and> deadline (ss ! n) \<le> sent_at (ss ! n)"
  using assms
proof (induction evs arbitrary: t w ss n)
  case Nil
  then show ?case by (simp add: receiveSendLoop.simps)
next
  case (Cons ev evs)
  from Cons.prems(2) obtain s ss' where ss: "ss = s # ss'" by (cases ss) auto
  from receiveSendLoop_step [OF Cons.prems(1) [unfolded ss]]
  obtain w1 where r: "receiveSendLoop (t + ms100) evs w1 = (ss', how, w')"
    and d: "deadline s = t" and a: "sent_at s = sleep_until t (clock ev) (late ev)" by blast
  show ?case
  proof (cases n)
    case 0
    then show ?thesis using d a by (simp add: ss sleep_until_def)
  next
    case (Suc m)
    then have "m < length ss'" using Cons.prems(2) ss by simp
    from Cons.IH [OF r this] show ?thesis by (simp add: ss Suc algebra_simps)
  qed
qed

text \<open>
  C9. In a session that began at the clock reading \<open>now\<close>, response \<open>n\<close> (counted
  from 0) is sent with the deadline \<open>now + n * 100 ms\<close> and no earlier than that
  deadline, and each deadline is the one before plus 100 ms: it does not depend
  on when the request arrived or when the response before it was sent.
\<close>

theorem runReceiveSendLoop_deadlines:
  assumes "runReceiveSendLoop now evs w = (ss, how, w')"
  shows "\<forall>n<length ss.
           deadline (ss ! n) = now + int n * (100 * 1000000) \<and>
           deadline (ss ! n) \<le> sent_at (ss ! n) \<and>
           (Suc n < length ss \<longrightarrow> deadline (ss ! Suc n) = deadline (ss ! n) + 100 * 1000000)"
proof (intro allI impI)
  fix n assume n: "n < length ss"
  have r: "receiveSendLoop now evs w = (ss, how, w')" using assms by (simp add: runReceiveSendLoop_def)
  have a: "deadline (ss ! n) = now + int n * ms100 \<and> deadline (ss ! n) \<le> sent_at (ss ! n)"
    by (rule receiveSendLoop_deadlines [OF r n])
  have "deadline (ss ! Suc n) = deadline (ss ! n) + ms100" if "Suc n < length ss"
    using receiveSendLoop_deadlines [OF r that] a by (simp add: algebra_simps)
  then show "deadline (ss ! n) = now + int n * (100 * 1000000) \<and>
           deadline (ss ! n) \<le> sent_at (ss ! n) \<and>
           (Suc n < length ss \<longrightarrow> deadline (ss ! Suc n) = deadline (ss ! n) + 100 * 1000000)"
    using a by (simp add: ms100_def)
qed

lemma createResponse_abc: "\<exists>r. createResponse ''abc'' w = Inr (r, w)"
  by (simp add: createResponse_def createResponseBody_def getRequestLine_def substr_def
      and_then_def str_find_def CRLF_def CR_def LF_def npos_def)

lemma slow_session_run:
  "\<exists>r. runReceiveSendLoop 5 slow_session w =
     ([\<lparr>sent_at = 7, deadline = 5, response = r\<rparr>,
       \<lparr>sent_at = 300000001, deadline = 100000005, response = r\<rparr>,
       \<lparr>sent_at = 300000002, deadline = 200000005, response = r\<rparr>], PeerShutdown, w)"
proof -
  obtain r where r: "createResponse ''abc'' w = Inr (r, w)" using createResponse_abc by blast
  show ?thesis
    by (rule exI [of _ r])
      (simp add: runReceiveSendLoop_def receiveSendLoop.simps slow_session_def
        vector_resize_small to_size_t_def
        RECV_BUF_SIZE_def r sleep_until_def ms100_def Let_def)
qed

text \<open>
  The theorem at the session with a slow second request: it is sent 200 ms after its
  deadline, and the deadline of the third is still the second's plus 100 ms.
\<close>

theorem runReceiveSendLoop_deadlines_witness:
  "\<exists>ss. runReceiveSendLoop 5 slow_session World_new = (ss, PeerShutdown, World_new) \<and>
     map deadline ss = [5, 100000005, 200000005] \<and>
     map sent_at ss = [7, 300000001, 300000002]"
proof -
  obtain r where r: "runReceiveSendLoop 5 slow_session World_new =
     ([\<lparr>sent_at = 7, deadline = 5, response = r\<rparr>,
       \<lparr>sent_at = 300000001, deadline = 100000005, response = r\<rparr>,
       \<lparr>sent_at = 300000002, deadline = 200000005, response = r\<rparr>], PeerShutdown, World_new)"
    using slow_session_run by blast
  show ?thesis
    using runReceiveSendLoop_deadlines [OF r] r by simp
qed

end
